theory Spec2Isabelle
  imports Complex_Main
begin

section \<open>Optimal Delaunay Triangulation smoothing (optimesh/odt.py)\<close>

text \<open>
  The source computes with numpy arrays of IEEE doubles. The embedding keeps the
  structure of every computation (which entries are read, which are written, in which
  order, and which checks raise) and idealises the arithmetic: a double is a
  \<^typ>\<open>real\<close>, so rounding is absent. The one place where IEEE arithmetic decides
  control flow without rounding, the division \<open>1.0 / mesh.cell_volumes\<close> by a zero
  volume (numpy yields \<open>inf\<close>, no exception), is written out in \<open>energy\<close>.
  Python 3 division is assumed (\<open>1 / (dim + 1)\<close> is one third). Points are rows of two
  coordinates, cells rows of three node indices.
\<close>

subsection \<open>Arrays\<close>

type_synonym point = "real \<times> real"
type_synonym cell = "nat \<times> nat \<times> nat"

datatype error = AssertionError | IndexError | ValueError

definition vadd :: "point \<Rightarrow> point \<Rightarrow> point" where
  "vadd p q = (fst p + fst q, snd p + snd q)"

definition vsub :: "point \<Rightarrow> point \<Rightarrow> point" where
  "vsub p q = (fst p - fst q, snd p - snd q)"

definition smul :: "real \<Rightarrow> point \<Rightarrow> point" where
  "smul k p = (k * fst p, k * snd p)"

definition norm2 :: "point \<Rightarrow> real" where
  "norm2 p = fst p * fst p + snd p * snd p"

text \<open>\<open>mesh.cells["nodes"][:, i]\<close> for \<open>i\<close> in \<open>range(3)\<close>; the rows of
  \<open>mesh.cells["nodes"].T\<close> are the same three columns.\<close>

definition slot :: "cell \<Rightarrow> nat \<Rightarrow> nat" where
  "slot c i = (case c of (a, b, d) \<Rightarrow> if i = 0 then a else if i = 1 then b else d)"

definition column :: "cell list \<Rightarrow> nat \<Rightarrow> nat list" where
  "column cs i = map (\<lambda>c. slot c i) cs"

text \<open>\<open>fastfunc.add.at(a, idx, vals)\<close>: \<open>a[idx[k]] += vals[k]\<close> for every \<open>k\<close> in
  order, repeated indices accumulating. An index beyond the array raises; index and value
  arrays of different length are rejected.\<close>

fun add_at :: "('a \<Rightarrow> 'a \<Rightarrow> 'a) \<Rightarrow> 'a list \<Rightarrow> nat list \<Rightarrow> 'a list \<Rightarrow> error + 'a list" where
  "add_at pl a [] [] = Inr a"
| "add_at pl a (i # idx) (v # vals) =
     (if i < length a then add_at pl (a[i := pl (a ! i) v]) idx vals else Inl IndexError)"
| "add_at pl a _ _ = Inl ValueError"

text \<open>\<open>numpy.dot\<close> of two one-dimensional arrays.\<close>

definition dot :: "real list \<Rightarrow> real list \<Rightarrow> error + real" where
  "dot a b = (if length a = length b then Inr (sum_list (map2 (*) a b)) else Inl ValueError)"

text \<open>\<open>x[mesh.cells["nodes"]]\<close>: the three corner points of every cell.\<close>

definition corners :: "point list \<Rightarrow> cell \<Rightarrow> error + (point \<times> point \<times> point)" where
  "corners x c = (case c of (a, b, d) \<Rightarrow>
     if a < length x \<and> b < length x \<and> d < length x then Inr (x ! a, x ! b, x ! d)
     else Inl IndexError)"

fun gather :: "point list \<Rightarrow> cell list \<Rightarrow> error + (point \<times> point \<times> point) list" where
  "gather x [] = Inr []"
| "gather x (c # cs) =
     (case corners x c of
        Inl e \<Rightarrow> Inl e
      | Inr t \<Rightarrow> (case gather x cs of Inl e \<Rightarrow> Inl e | Inr ts \<Rightarrow> Inr (t # ts)))"

subsection \<open>The quadrature of the quadpy collaborator\<close>

text \<open>\<open>quadpy.triangle.integrate(f, triangles, Dunavant(2))\<close>: the triangle's area
  times the weighted sum of \<open>f\<close> at the scheme's points. Dunavant's scheme of degree 2 has
  three points of weight one third, at barycentric coordinates \<open>(2/3, 1/6, 1/6)\<close> and its
  permutations.\<close>

definition tri_area :: "point \<Rightarrow> point \<Rightarrow> point \<Rightarrow> real" where
  "tri_area a b c =
     \<bar>(fst b - fst a) * (snd c - snd a) - (fst c - fst a) * (snd b - snd a)\<bar> / 2"

definition bary :: "real \<Rightarrow> real \<Rightarrow> real \<Rightarrow> point \<Rightarrow> point \<Rightarrow> point \<Rightarrow> point" where
  "bary u v w a b c = vadd (smul u a) (vadd (smul v b) (smul w c))"

definition dunavant2 :: "(point \<Rightarrow> real) \<Rightarrow> point \<times> point \<times> point \<Rightarrow> real" where
  "dunavant2 f t = (case t of (a, b, c) \<Rightarrow>
     tri_area a b c *
       (f (bary (2/3) (1/6) (1/6) a b c) * (1/3)
        + f (bary (1/6) (2/3) (1/6) a b c) * (1/3)
        + f (bary (1/6) (1/6) (2/3) a b c) * (1/3)))"

subsection \<open>The mesh\<close>

text \<open>The attributes of the \<open>meshplex.MeshTri\<close> object that the source reads and
  writes. \<open>boundary_cell_ids\<close> is \<open>mesh.edges_cells[1][:, 0]\<close>: for every edge with
  exactly one adjacent cell, the index of that cell.\<close>

record mesh =
  node_coords :: "point list"
  cells_nodes :: "cell list"
  is_interior_node :: "bool list"
  cell_volumes :: "real list"
  cell_circumcenters :: "point list"
  cell_barycenters :: "point list"
  boundary_cell_ids :: "nat list"

subsection \<open>energy\<close>

text \<open>\<open>dim = mesh.cells["nodes"].shape[1] - 1\<close>: the cells of a \<open>MeshTri\<close> have three
  columns.\<close>

definition dim :: "mesh \<Rightarrow> nat" where
  "dim m = 3 - 1"

definition star_volume_step :: "mesh \<Rightarrow> bool \<Rightarrow> real list \<Rightarrow> nat \<Rightarrow> error + real list" where
  "star_volume_step m uniform_density sv i =
     (let idx = column (cells_nodes m) i in
      if uniform_density then add_at (+) sv idx (cell_volumes m)
      else add_at (+) sv idx (replicate (length idx) 1))"

fun star_volume_loop :: "mesh \<Rightarrow> bool \<Rightarrow> real list \<Rightarrow> nat list \<Rightarrow> error + real list" where
  "star_volume_loop m ud sv [] = Inr sv"
| "star_volume_loop m ud sv (i # rest) =
     (case star_volume_step m ud sv i of
        Inl e \<Rightarrow> Inl e
      | Inr sv' \<Rightarrow> star_volume_loop m ud sv' rest)"

text \<open>The function itself. Where the density is not uniform and some cell volume is
  zero, \<open>rho = 1.0 / mesh.cell_volumes\<close> holds \<open>inf\<close> there; the quadrature values are
  not negative, so \<open>val\<close> is \<open>inf\<close> or \<open>nan\<close>, the comparison \<open>out >= val\<close> is false and
  the assertion fails.\<close>

definition energy :: "mesh \<Rightarrow> bool \<Rightarrow> error + real" where
  "energy m uniform_density =
     (case star_volume_loop m uniform_density
             (replicate (length (node_coords m)) 0) [0, 1, 2] of
        Inl e \<Rightarrow> Inl e
      | Inr star_volume \<Rightarrow>
     (let x2 = map norm2 (node_coords m) in
      case dot star_volume x2 of
        Inl e \<Rightarrow> Inl e
      | Inr d \<Rightarrow>
     (let out = 1 / real (dim m + 1) * d in
      if dim m \<noteq> 2 then Inl AssertionError
      else
      case gather (node_coords m) (cells_nodes m) of
        Inl e \<Rightarrow> Inl e
      | Inr triangles \<Rightarrow>
     (let val = map (dunavant2 norm2) triangles in
      if uniform_density then
        (let v = sum_list val in
         if out \<ge> v then Inr (out - v) else Inl AssertionError)
      else
        (case dot val (map (\<lambda>v. 1 / v) (cell_volumes m)) of
           Inl e \<Rightarrow> Inl e
         | Inr v \<Rightarrow>
             if 0 \<in> set (cell_volumes m) then Inl AssertionError
             else if out \<ge> v then Inr (out - v) else Inl AssertionError)))))"

text \<open>\<open>energy(mesh)\<close>, the call without the second argument: \<open>uniform_density\<close> takes
  its default, \<open>False\<close>.\<close>

definition energy_default :: "mesh \<Rightarrow> error + real" where
  "energy_default m = energy m False"

subsection \<open>Masks, reshaping and fancy indexing\<close>

text \<open>\<open>a[mask]\<close> with a boolean mask over the rows: the rows where the mask is true, in
  order. numpy rejects a mask whose length is not the number of rows.\<close>

definition select :: "bool list \<Rightarrow> 'a list \<Rightarrow> error + 'a list" where
  "select msk a =
     (if length msk = length a then Inr (map snd (filter fst (zip msk a)))
      else Inl IndexError)"

text \<open>\<open>.flatten()\<close> of an array of two columns, and \<open>x.reshape(-1, X.shape[1])\<close> for
  points of two columns; an odd number of entries cannot be reshaped.\<close>

definition flatten :: "point list \<Rightarrow> real list" where
  "flatten ps = concat (map (\<lambda>p. [fst p, snd p]) ps)"

fun reshape2 :: "real list \<Rightarrow> error + point list" where
  "reshape2 [] = Inr []"
| "reshape2 [x] = Inl ValueError"
| "reshape2 (x # y # r) =
     (case reshape2 r of Inl e \<Rightarrow> Inl e | Inr ps \<Rightarrow> Inr ((x, y) # ps))"

text \<open>\<open>a[mask] = rows\<close>: the selected rows are overwritten in order, every other row is
  kept. The rows must be as many as the mask selects, or a single row, which numpy
  broadcasts.\<close>

fun assign_rows :: "bool list \<Rightarrow> 'a list \<Rightarrow> 'a list \<Rightarrow> 'a list" where
  "assign_rows (b # bs) (p # ps) rows =
     (if b then
        (case rows of
           [] \<Rightarrow> p # assign_rows bs ps []
         | r # rs \<Rightarrow> r # assign_rows bs ps rs)
      else p # assign_rows bs ps rows)"
| "assign_rows _ ps _ = ps"

definition set_masked :: "bool list \<Rightarrow> 'a list \<Rightarrow> 'a list \<Rightarrow> error + 'a list" where
  "set_masked msk a rows =
     (if length msk \<noteq> length a then Inl IndexError
      else
        (let k = length (filter id msk) in
         if length rows = k then Inr (assign_rows msk a rows)
         else if length rows = 1 then Inr (assign_rows msk a (replicate k (hd rows)))
         else Inl ValueError))"

text \<open>\<open>a[ids]\<close> and \<open>a[ids] = vals\<close> with an integer index array.\<close>

fun take_at :: "'a list \<Rightarrow> nat list \<Rightarrow> error + 'a list" where
  "take_at a [] = Inr []"
| "take_at a (i # ids) =
     (if i < length a then
        (case take_at a ids of Inl e \<Rightarrow> Inl e | Inr vs \<Rightarrow> Inr (a ! i # vs))
      else Inl IndexError)"

fun put_at :: "'a list \<Rightarrow> nat list \<Rightarrow> 'a list \<Rightarrow> error + 'a list" where
  "put_at a [] [] = Inr a"
| "put_at a (i # ids) (v # vals) =
     (if i < length a then put_at (a[i := v]) ids vals else Inl IndexError)"
| "put_at a _ _ = Inl ValueError"

subsection \<open>The geometry of the meshplex collaborator\<close>

text \<open>The derived quantities that \<open>MeshTri\<close> holds and \<open>update_values\<close> recomputes from
  the current coordinates: per cell the area, the circumcenter and the barycenter. In a
  degenerate cell the circumcenter divides by zero.\<close>

definition circumcenter :: "point \<Rightarrow> point \<Rightarrow> point \<Rightarrow> point" where
  "circumcenter a b c =
     (let d = 2 * (fst a * (snd b - snd c) + fst b * (snd c - snd a) + fst c * (snd a - snd b))
      in ((norm2 a * (snd b - snd c) + norm2 b * (snd c - snd a) + norm2 c * (snd a - snd b)) / d,
          (norm2 a * (fst c - fst b) + norm2 b * (fst a - fst c) + norm2 c * (fst b - fst a)) / d))"

definition barycenter :: "point \<Rightarrow> point \<Rightarrow> point \<Rightarrow> point" where
  "barycenter a b c = smul (1/3) (vadd a (vadd b c))"

definition update_values :: "mesh \<Rightarrow> error + mesh" where
  "update_values m =
     (case gather (node_coords m) (cells_nodes m) of
        Inl e \<Rightarrow> Inl e
      | Inr ts \<Rightarrow>
          Inr (m\<lparr> cell_volumes := map (\<lambda>(a, b, c). tri_area a b c) ts,
                  cell_circumcenters := map (\<lambda>(a, b, c). circumcenter a b c) ts,
                  cell_barycenters := map (\<lambda>(a, b, c). barycenter a b c) ts \<rparr>))"

text \<open>The adjacency that \<open>MeshTri\<close> derives from the cells: an edge is an unordered pair
  of nodes of one cell; a boundary edge has exactly one adjacent cell; a node is interior
  when no boundary edge ends in it. \<open>edges_cells[1]\<close> lists a cell once for each of its
  boundary edges; the source only assigns through the list, so its order is immaterial.\<close>

definition edge :: "nat \<Rightarrow> nat \<Rightarrow> nat \<times> nat" where
  "edge p q = (min p q, max p q)"

definition cell_edges :: "cell \<Rightarrow> (nat \<times> nat) list" where
  "cell_edges c = (case c of (a, b, d) \<Rightarrow> [edge b d, edge d a, edge a b])"

definition num_adjacent :: "cell list \<Rightarrow> nat \<times> nat \<Rightarrow> nat" where
  "num_adjacent cs e = length (filter (\<lambda>c. e \<in> set (cell_edges c)) cs)"

definition boundary_edges :: "cell list \<Rightarrow> (nat \<times> nat) list" where
  "boundary_edges cs = filter (\<lambda>e. num_adjacent cs e = 1) (concat (map cell_edges cs))"

definition edges_cells_1 :: "cell list \<Rightarrow> nat list" where
  "edges_cells_1 cs =
     concat (map (\<lambda>k. map (\<lambda>e. k) (filter (\<lambda>e. num_adjacent cs e = 1) (cell_edges (cs ! k))))
                 [0..<length cs])"

definition interior_nodes :: "nat \<Rightarrow> cell list \<Rightarrow> bool list" where
  "interior_nodes n cs =
     map (\<lambda>i. \<not> list_ex (\<lambda>e. fst e = i \<or> snd e = i) (boundary_edges cs)) [0..<n]"

definition MeshTri :: "point list \<Rightarrow> cell list \<Rightarrow> error + mesh" where
  "MeshTri points cells =
     update_values
       \<lparr> node_coords = points, cells_nodes = cells,
         is_interior_node = interior_nodes (length points) cells,
         cell_volumes = [], cell_circumcenters = [], cell_barycenters = [],
         boundary_cell_ids = edges_cells_1 cells \<rparr>"

subsection \<open>The fixed-point relocators\<close>

text \<open>The shared body of the two \<open>get_new_points\<close>. \<open>cc\<close> is the array the mesh holds as
  \<open>cell_circumcenters\<close> (meshplex hands out its cached array), so the assignment
  \<open>cc[boundary_cell_ids] = bc[boundary_cell_ids]\<close> writes into the mesh.\<close>

definition substitute_boundary :: "mesh \<Rightarrow> error + mesh" where
  "substitute_boundary m =
     (let cc = cell_circumcenters m; bc = cell_barycenters m;
          boundary_cell_ids = boundary_cell_ids m in
      case take_at bc boundary_cell_ids of
        Inl e \<Rightarrow> Inl e
      | Inr vals \<Rightarrow>
          (case put_at cc boundary_cell_ids vals of
             Inl e \<Rightarrow> Inl e
           | Inr cc' \<Rightarrow> Inr (m\<lparr> cell_circumcenters := cc' \<rparr>)))"

definition star :: "mesh \<Rightarrow> nat \<Rightarrow> nat list" where
  "star m i =
     filter (\<lambda>c. case cells_nodes m ! c of (a, b, d) \<Rightarrow> a = i \<or> b = i \<or> d = i)
            [0..<length (cells_nodes m)]"

definition interior_ids :: "mesh \<Rightarrow> nat list" where
  "interior_ids m = filter (\<lambda>i. is_interior_node m ! i) [0..<length (is_interior_node m)]"

definition vsum :: "point list \<Rightarrow> point" where
  "vsum ps = (sum_list (map fst ps), sum_list (map snd ps))"

text \<open>Modelled from the spec: \<open>helpers.get_new_points_volume_averaged\<close> is not among the
  sources. Section 4.2: for each interior node, the volume-weighted average of the target
  points of the cells in that node's star.\<close>

definition get_new_points_volume_averaged :: "mesh \<Rightarrow> point list \<Rightarrow> point list" where
  "get_new_points_volume_averaged m reference_points =
     map (\<lambda>i. smul (1 / sum_list (map (\<lambda>c. cell_volumes m ! c) (star m i)))
                 (vsum (map (\<lambda>c. smul (cell_volumes m ! c) (reference_points ! c)) (star m i))))
         (interior_ids m)"

text \<open>Modelled from the spec: \<open>helpers.get_new_points_count_averaged\<close> is not among the
  sources. Sections 4.2 and 9: the unweighted arithmetic mean of the same target points.\<close>

definition get_new_points_count_averaged :: "mesh \<Rightarrow> point list \<Rightarrow> point list" where
  "get_new_points_count_averaged m reference_points =
     map (\<lambda>i. smul (1 / real (length (star m i)))
                 (vsum (map (\<lambda>c. reference_points ! c) (star m i))))
         (interior_ids m)"

definition fixed_point_uniform_get_new_points :: "mesh \<Rightarrow> error + (point list \<times> mesh)" where
  "fixed_point_uniform_get_new_points m =
     (case substitute_boundary m of
        Inl e \<Rightarrow> Inl e
      | Inr m' \<Rightarrow> Inr (get_new_points_volume_averaged m' (cell_circumcenters m'), m'))"

definition fixed_point_density_preserving_get_new_points ::
    "mesh \<Rightarrow> error + (point list \<times> mesh)" where
  "fixed_point_density_preserving_get_new_points m =
     (case substitute_boundary m of
        Inl e \<Rightarrow> Inl e
      | Inr m' \<Rightarrow> Inr (get_new_points_count_averaged m' (cell_circumcenters m'), m'))"

text \<open>Modelled from the spec: \<open>helpers.runner\<close> is not among the sources. Section 4.2: the
  driver calls \<open>get_new_points\<close> once per outer iteration, applies the (possibly damped)
  result to the interior nodes, recomputes the geometry, and repeats until the
  convergence tolerance or the iteration cap is reached. The spec fixes neither the
  damping rule nor the convergence test: \<open>damp\<close> chooses the coordinates written to the
  interior nodes from the current mesh and the candidate points, \<open>converged\<close> compares the
  mesh before and after the step.\<close>

fun runner_steps ::
  "(mesh \<Rightarrow> error + (point list \<times> mesh)) \<Rightarrow> (mesh \<Rightarrow> point list \<Rightarrow> point list) \<Rightarrow>
   (real \<Rightarrow> mesh \<Rightarrow> mesh \<Rightarrow> bool) \<Rightarrow> real \<Rightarrow> nat \<Rightarrow> mesh \<Rightarrow> error + mesh" where
  "runner_steps get_new_points damp converged tol 0 m = Inr m"
| "runner_steps get_new_points damp converged tol (Suc k) m =
     (case get_new_points m of
        Inl e \<Rightarrow> Inl e
      | Inr (new_points, m1) \<Rightarrow>
     (case set_masked (is_interior_node m1) (node_coords m1) (damp m1 new_points) of
        Inl e \<Rightarrow> Inl e
      | Inr xnew \<Rightarrow>
     (case update_values (m1\<lparr> node_coords := xnew \<rparr>) of
        Inl e \<Rightarrow> Inl e
      | Inr m2 \<Rightarrow>
          if converged tol m1 m2 then Inr m2
          else runner_steps get_new_points damp converged tol k m2)))"

definition runner ::
  "(mesh \<Rightarrow> error + (point list \<times> mesh)) \<Rightarrow> (mesh \<Rightarrow> point list \<Rightarrow> point list) \<Rightarrow>
   (real \<Rightarrow> mesh \<Rightarrow> mesh \<Rightarrow> bool) \<Rightarrow> mesh \<Rightarrow> real \<Rightarrow> int \<Rightarrow> error + mesh" where
  "runner get_new_points damp converged m tol max_num_steps =
     runner_steps get_new_points damp converged tol (nat max_num_steps) m"

definition fixed_point_uniform ::
  "(mesh \<Rightarrow> point list \<Rightarrow> point list) \<Rightarrow> (real \<Rightarrow> mesh \<Rightarrow> mesh \<Rightarrow> bool) \<Rightarrow>
   point list \<Rightarrow> cell list \<Rightarrow> real \<Rightarrow> int \<Rightarrow> error + (point list \<times> cell list)" where
  "fixed_point_uniform damp converged points cells tol max_num_steps =
     (case MeshTri points cells of
        Inl e \<Rightarrow> Inl e
      | Inr m \<Rightarrow>
          (case runner fixed_point_uniform_get_new_points damp converged m tol max_num_steps of
             Inl e \<Rightarrow> Inl e
           | Inr m' \<Rightarrow> Inr (node_coords m', cells_nodes m')))"

definition fixed_point_density_preserving ::
  "(mesh \<Rightarrow> point list \<Rightarrow> point list) \<Rightarrow> (real \<Rightarrow> mesh \<Rightarrow> mesh \<Rightarrow> bool) \<Rightarrow>
   point list \<Rightarrow> cell list \<Rightarrow> real \<Rightarrow> int \<Rightarrow> error + (point list \<times> cell list)" where
  "fixed_point_density_preserving damp converged points cells tol max_num_steps =
     (case MeshTri points cells of
        Inl e \<Rightarrow> Inl e
      | Inr m \<Rightarrow>
          (case runner fixed_point_density_preserving_get_new_points damp converged m tol
                  max_num_steps of
             Inl e \<Rightarrow> Inl e
           | Inr m' \<Rightarrow> Inr (node_coords m', cells_nodes m')))"

subsection \<open>The nonlinear optimizer\<close>

text \<open>The closures \<open>f\<close>, \<open>jac\<close> and \<open>flip_delaunay\<close> share the mesh and the counter
  \<open>flip_delaunay.step\<close>. What the run prints, saves and passes to the caller's callback is
  recorded in a trace, in order. An exception ends the run and carries the state reached.\<close>

text \<open>Modelled from the spec: \<open>helpers.print_stats\<close> is not among the sources (section 1:
  console statistics are a collaborator's). A call is recorded with the energy it is
  given in \<open>extra_cols\<close>; \<open>mesh.save\<close> is recorded with the step number of the file
  name, a call of the caller's callback with its two arguments.\<close>

datatype event =
    Saved nat
  | Stats_before real
  | Stats_step nat real
  | Stats_final nat real
  | Called nat mesh

record run_state =
  the_mesh :: mesh
  step :: nat
  trace :: "event list"

type_synonym 'a outcome = "(error \<times> run_state) + ('a \<times> run_state)"

definition emit :: "event \<Rightarrow> run_state \<Rightarrow> run_state" where
  "emit ev st = st\<lparr> trace := trace st @ [ev] \<rparr>"

text \<open>\<open>mesh.node_coords[mesh.is_interior_node] = x.reshape(-1, X.shape[1])\<close>\<close>

definition write_interior :: "real list \<Rightarrow> mesh \<Rightarrow> error + mesh" where
  "write_interior x m =
     (case reshape2 x of
        Inl e \<Rightarrow> Inl e
      | Inr rows \<Rightarrow>
          (case set_masked (is_interior_node m) (node_coords m) rows of
             Inl e \<Rightarrow> Inl e
           | Inr xs \<Rightarrow> Inr (m\<lparr> node_coords := xs \<rparr>)))"

text \<open>The two lines every closure starts with: the write and \<open>mesh.update_values()\<close>.\<close>

definition refresh :: "real list \<Rightarrow> run_state \<Rightarrow> unit outcome" where
  "refresh x st =
     (case write_interior x (the_mesh st) of
        Inl e \<Rightarrow> Inl (e, st)
      | Inr m1 \<Rightarrow>
          (case update_values m1 of
             Inl e \<Rightarrow> Inl (e, st\<lparr> the_mesh := m1 \<rparr>)
           | Inr m2 \<Rightarrow> Inr ((), st\<lparr> the_mesh := m2 \<rparr>)))"

definition f :: "real list \<Rightarrow> run_state \<Rightarrow> real outcome" where
  "f x st =
     (case refresh x st of
        Inl err \<Rightarrow> Inl err
      | Inr (u, st') \<Rightarrow>
          (case energy (the_mesh st') True of
             Inl e \<Rightarrow> Inl (e, st')
           | Inr v \<Rightarrow> Inr (v, st')))"

text \<open>One pass of the loop \<open>for mcn in mesh.cells["nodes"].T\<close> of \<open>jac\<close>.\<close>

definition sub_rows :: "point list \<Rightarrow> point list \<Rightarrow> error + point list" where
  "sub_rows a b = (if length a = length b then Inr (map2 vsub a b) else Inl ValueError)"

definition scale_rows :: "point list \<Rightarrow> real list \<Rightarrow> error + point list" where
  "scale_rows a k =
     (if length a = length k then Inr (map2 (\<lambda>p v. smul v p) a k) else Inl ValueError)"

definition grad_step :: "mesh \<Rightarrow> point list \<Rightarrow> nat \<Rightarrow> error + point list" where
  "grad_step m grad i =
     (let mcn = column (cells_nodes m) i; cc = cell_circumcenters m in
      case take_at (node_coords m) mcn of
        Inl e \<Rightarrow> Inl e
      | Inr xs \<Rightarrow>
     (case sub_rows xs cc of
        Inl e \<Rightarrow> Inl e
      | Inr d \<Rightarrow>
     (case scale_rows d (cell_volumes m) of
        Inl e \<Rightarrow> Inl e
      | Inr vals \<Rightarrow> add_at vadd grad mcn vals)))"

fun grad_loop :: "mesh \<Rightarrow> point list \<Rightarrow> nat list \<Rightarrow> error + point list" where
  "grad_loop m grad [] = Inr grad"
| "grad_loop m grad (i # rest) =
     (case grad_step m grad i of
        Inl e \<Rightarrow> Inl e
      | Inr grad' \<Rightarrow> grad_loop m grad' rest)"

definition gradient :: "mesh \<Rightarrow> error + real list" where
  "gradient m =
     (case grad_loop m (replicate (length (node_coords m)) (0, 0)) [0, 1, 2] of
        Inl e \<Rightarrow> Inl e
      | Inr grad \<Rightarrow>
          (let gdim = (2::nat);
               grad' = map (smul (2 / real (gdim + 1))) grad in
           case select (is_interior_node m) grad' of
             Inl e \<Rightarrow> Inl e
           | Inr g \<Rightarrow> Inr (flatten g)))"

definition jac :: "real list \<Rightarrow> run_state \<Rightarrow> (real list) outcome" where
  "jac x st =
     (case refresh x st of
        Inl err \<Rightarrow> Inl err
      | Inr (u, st') \<Rightarrow>
          (case gradient (the_mesh st') of
             Inl e \<Rightarrow> Inl (e, st')
           | Inr g \<Rightarrow> Inr (g, st')))"

text \<open>\<open>flip_delaunay\<close>, the minimizer's per-step callback. \<open>flip\<close> is the mesh's
  \<open>flip_until_delaunay\<close>, an operation of the meshplex collaborator; \<open>save_steps\<close> says
  whether \<open>step_filename_format\<close> is set, \<open>has_callback\<close> whether the caller gave a
  callback. The callback only observes: its calls enter the trace with their arguments.\<close>

definition flip_delaunay ::
  "(mesh \<Rightarrow> mesh) \<Rightarrow> bool \<Rightarrow> bool \<Rightarrow> bool \<Rightarrow> real list \<Rightarrow> run_state \<Rightarrow> unit outcome" where
  "flip_delaunay flip verbose save_steps has_callback x st =
     (case refresh x (st\<lparr> step := step st + 1 \<rparr>) of
        Inl err \<Rightarrow> Inl err
      | Inr (u, st1) \<Rightarrow>
     (let st2 = st1\<lparr> the_mesh := flip (the_mesh st1) \<rparr>;
          st3 = (if save_steps then emit (Saved (step st2)) st2 else st2) in
      case (if verbose then
              (case f x st3 of
                 Inl err \<Rightarrow> Inl err
               | Inr (v, st4) \<Rightarrow> Inr ((), emit (Stats_step (step st4) v) st4))
            else Inr ((), st3)) of
        Inl err \<Rightarrow> Inl err
      | Inr (u, st5) \<Rightarrow>
          Inr ((), if has_callback then emit (Called (step st5) (the_mesh st5)) st5 else st5)))"

text \<open>\<open>scipy.optimize.minimize\<close> is a collaborator: what it does is a strategy that, from
  the start vector, the tolerance and the iteration cap, decides which of the three
  closures to call next from the values returned so far, and in the end reports
  \<open>out.x\<close>, \<open>out.success\<close> and \<open>out.nit\<close>.\<close>

datatype minimizer =
    Done "real list" bool nat
  | Eval_f "real list" "real \<Rightarrow> minimizer"
  | Eval_jac "real list" "real list \<Rightarrow> minimizer"
  | Accept "real list" minimizer

primrec run_minimizer ::
  "(mesh \<Rightarrow> mesh) \<Rightarrow> bool \<Rightarrow> bool \<Rightarrow> bool \<Rightarrow> minimizer \<Rightarrow> run_state \<Rightarrow>
   (real list \<times> bool \<times> nat) outcome" where
  "run_minimizer flip verbose save_steps has_callback (Done x success nit) =
     (\<lambda>st. Inr ((x, success, nit), st))"
| "run_minimizer flip verbose save_steps has_callback (Eval_f x k) =
     (\<lambda>st. case f x st of
        Inl err \<Rightarrow> Inl err
      | Inr (v, st') \<Rightarrow> run_minimizer flip verbose save_steps has_callback (k v) st')"
| "run_minimizer flip verbose save_steps has_callback (Eval_jac x k) =
     (\<lambda>st. case jac x st of
        Inl err \<Rightarrow> Inl err
      | Inr (g, st') \<Rightarrow> run_minimizer flip verbose save_steps has_callback (k g) st')"
| "run_minimizer flip verbose save_steps has_callback (Accept x t) =
     (\<lambda>st. case flip_delaunay flip verbose save_steps has_callback x st of
        Inl err \<Rightarrow> Inl err
      | Inr (u, st') \<Rightarrow> run_minimizer flip verbose save_steps has_callback t st')"

text \<open>\<open>nonlinear_optimization_uniform\<close> up to the return of the minimizer (lines 147 to
  231): the mesh is built, the first snapshot and statistics are emitted, the callback
  is called with step 0, and the minimizer runs.\<close>

definition optimizing ::
  "(mesh \<Rightarrow> mesh) \<Rightarrow> (real list \<Rightarrow> real \<Rightarrow> int \<Rightarrow> minimizer) \<Rightarrow>
   point list \<Rightarrow> cell list \<Rightarrow> real \<Rightarrow> int \<Rightarrow> bool \<Rightarrow> bool \<Rightarrow> bool \<Rightarrow>
   (real list \<times> bool \<times> nat) outcome" where
  "optimizing flip minimize X cells tol max_num_steps verbose save_steps has_callback =
     (let none = \<lparr> the_mesh = \<lparr> node_coords = X, cells_nodes = cells, is_interior_node = [],
                      cell_volumes = [], cell_circumcenters = [], cell_barycenters = [],
                      boundary_cell_ids = [] \<rparr>, step = 0, trace = [] \<rparr> in
      case MeshTri X cells of
        Inl e \<Rightarrow> Inl (e, none)
      | Inr m \<Rightarrow>
     (let st0 = \<lparr> the_mesh = m, step = 0, trace = [] \<rparr>;
          st1 = (if save_steps then emit (Saved 0) st0 else st0) in
      case energy_default m of
        Inl e \<Rightarrow> Inl (e, st1)
      | Inr e0 \<Rightarrow>
     (let st2 = emit (Stats_before e0) st1 in
      case select (is_interior_node m) X of
        Inl e \<Rightarrow> Inl (e, st2)
      | Inr xi \<Rightarrow>
     (let x0 = flatten xi;
          st3 = (if has_callback then emit (Called 0 (the_mesh st2)) st2 else st2) in
      run_minimizer flip verbose save_steps has_callback
        (minimize x0 tol max_num_steps) st3))))"

text \<open>The whole function: after the minimizer, whatever \<open>out.success\<close> says, the last
  iterate is written, the geometry recomputed, the edges flipped once more, the final
  statistics emitted, and the coordinates and cells of the mesh returned.\<close>

definition nonlinear_optimization_uniform ::
  "(mesh \<Rightarrow> mesh) \<Rightarrow> (real list \<Rightarrow> real \<Rightarrow> int \<Rightarrow> minimizer) \<Rightarrow>
   point list \<Rightarrow> cell list \<Rightarrow> real \<Rightarrow> int \<Rightarrow> bool \<Rightarrow> bool \<Rightarrow> bool \<Rightarrow>
   (point list \<times> cell list) outcome" where
  "nonlinear_optimization_uniform flip minimize X cells tol max_num_steps verbose
       save_steps has_callback =
     (case optimizing flip minimize X cells tol max_num_steps verbose save_steps
             has_callback of
        Inl err \<Rightarrow> Inl err
      | Inr ((out_x, out_success, out_nit), st4) \<Rightarrow>
     (case refresh out_x st4 of
        Inl err \<Rightarrow> Inl err
      | Inr (u, st5) \<Rightarrow>
     (let st6 = st5\<lparr> the_mesh := flip (the_mesh st5) \<rparr> in
      case energy_default (the_mesh st6) of
        Inl e \<Rightarrow> Inl (e, st6)
      | Inr e1 \<Rightarrow>
          Inr ((node_coords (the_mesh st6), cells_nodes (the_mesh st6)),
               emit (Stats_final out_nit e1) st6))))"

subsection \<open>What the specification says of the energy\<close>

text \<open>The star-volume term and the integral term as section 4.1 words them. The
  quadrature on this side is the edge-midpoint rule, another rule that is exact for
  polynomials of degree 2.\<close>

definition cell_weight :: "mesh \<Rightarrow> bool \<Rightarrow> nat \<Rightarrow> real" where
  "cell_weight m ud c = (if ud then cell_volumes m ! c else 1)"

definition star_volume_spec :: "mesh \<Rightarrow> bool \<Rightarrow> nat \<Rightarrow> real" where
  "star_volume_spec m ud i =
     (\<Sum>c<length (cells_nodes m). \<Sum>s<3.
        if slot (cells_nodes m ! c) s = i then cell_weight m ud c else 0)"

definition midpoint :: "point \<Rightarrow> point \<Rightarrow> point" where
  "midpoint a b = smul (1/2) (vadd a b)"

definition midpoint_rule :: "(point \<Rightarrow> real) \<Rightarrow> point \<times> point \<times> point \<Rightarrow> real" where
  "midpoint_rule g t = (case t of (a, b, c) \<Rightarrow>
     tri_area a b c / 3 * (g (midpoint a b) + g (midpoint b c) + g (midpoint c a)))"

definition cell_points :: "mesh \<Rightarrow> nat \<Rightarrow> point \<times> point \<times> point" where
  "cell_points m c = (case cells_nodes m ! c of (a, b, d) \<Rightarrow>
     (node_coords m ! a, node_coords m ! b, node_coords m ! d))"

definition S_spec :: "mesh \<Rightarrow> bool \<Rightarrow> real" where
  "S_spec m ud =
     1 / (2 + 1) * (\<Sum>i<length (node_coords m). star_volume_spec m ud i * norm2 (node_coords m ! i))"

definition I_spec :: "mesh \<Rightarrow> bool \<Rightarrow> real" where
  "I_spec m ud =
     (\<Sum>c<length (cells_nodes m).
        if ud then midpoint_rule norm2 (cell_points m c)
        else 1 / cell_volumes m ! c * midpoint_rule norm2 (cell_points m c))"

text \<open>A valid mesh (section 3): the node indices of every cell exist and are distinct,
  the volume held for every cell is the area of its triangle, and it is positive.\<close>

definition cell_in_range :: "nat \<Rightarrow> cell \<Rightarrow> bool" where
  "cell_in_range n c = (case c of (a, b, d) \<Rightarrow> a < n \<and> b < n \<and> d < n)"

definition cell_distinct :: "cell \<Rightarrow> bool" where
  "cell_distinct c = (case c of (a, b, d) \<Rightarrow> a \<noteq> b \<and> b \<noteq> d \<and> a \<noteq> d)"

definition valid_mesh :: "mesh \<Rightarrow> bool" where
  "valid_mesh m \<longleftrightarrow>
     list_all (cell_in_range (length (node_coords m))) (cells_nodes m) \<and>
     list_all cell_distinct (cells_nodes m) \<and>
     length (cell_volumes m) = length (cells_nodes m) \<and>
     list_all (\<lambda>c. cell_volumes m ! c = (case cell_points m c of (a, b, d) \<Rightarrow> tri_area a b d)
                   \<and> 0 < cell_volumes m ! c) [0..<length (cells_nodes m)]"

text \<open>The integral term as \<open>energy\<close> computes it, and the sums over the corners and the
  edges of a triangle that the convexity bound is stated with.\<close>

definition I_code :: "mesh \<Rightarrow> bool \<Rightarrow> real" where
  "I_code m ud =
     (\<Sum>c<length (cells_nodes m).
        if ud then dunavant2 norm2 (cell_points m c)
        else dunavant2 norm2 (cell_points m c) * (1 / cell_volumes m ! c))"

definition corner_sum :: "point \<times> point \<times> point \<Rightarrow> real" where
  "corner_sum t = (case t of (a, b, c) \<Rightarrow> norm2 a + norm2 b + norm2 c)"

definition edge_sum :: "point \<times> point \<times> point \<Rightarrow> real" where
  "edge_sum t = (case t of (a, b, c) \<Rightarrow> norm2 (vsub a b) + norm2 (vsub b c) + norm2 (vsub c a))"

subsection \<open>Meshes to evaluate on\<close>

definition unit_triangle :: mesh where
  "unit_triangle = \<lparr> node_coords = [(0, 0), (1, 0), (0, 1)], cells_nodes = [(0, 1, 2)],
     is_interior_node = [False, False, False], cell_volumes = [1/2],
     cell_circumcenters = [(1/2, 1/2)], cell_barycenters = [(1/3, 1/3)],
     boundary_cell_ids = [0, 0, 0] \<rparr>"

text \<open>The unit triangle with a stale volume: the mesh holds one eighth where the area
  is one half.\<close>

definition stale_triangle :: mesh where
  "stale_triangle = unit_triangle\<lparr> cell_volumes := [1/8] \<rparr>"

text \<open>The value or the exception of an outcome, without the state.\<close>

definition result_of :: "'a outcome \<Rightarrow> error + 'a" where
  "result_of r = map_sum fst fst r"

text \<open>Three collinear points: a cell of area zero.\<close>

definition flat_points :: "point list" where
  "flat_points = [(0, 0), (1, 0), (2, 0)]"

subsection \<open>Invariants of the mesh object\<close>

text \<open>What meshplex maintains between calls: the derived geometry is that of the current
  coordinates and cells, the interior flags cover the nodes, and the boundary cell
  indices are those of the current cells.\<close>

definition well_formed :: "mesh \<Rightarrow> bool" where
  "well_formed m \<longleftrightarrow>
     update_values m = Inr m \<and>
     length (is_interior_node m) = length (node_coords m) \<and>
     boundary_cell_ids m = edges_cells_1 (cells_nodes m)"

subsection \<open>What the specification says of the gradient\<close>

text \<open>Section 4.1: every cell adds \<open>(node_coord - cell_circumcenter) * cell_volume\<close> to
  each of its three nodes; the sums are scaled by \<open>2 / (d + 1)\<close> with \<open>d = 2\<close>, and the
  rows of the interior nodes are flattened in the order of the mask.\<close>

definition cell_pull :: "mesh \<Rightarrow> nat \<Rightarrow> nat \<Rightarrow> point" where
  "cell_pull m i c = smul (cell_volumes m ! c) (vsub (node_coords m ! i) (cell_circumcenters m ! c))"

definition node_gradient_spec :: "mesh \<Rightarrow> nat \<Rightarrow> point" where
  "node_gradient_spec m i =
     smul (2 / (2 + 1))
       ((\<Sum>c<length (cells_nodes m). \<Sum>s<3.
           if slot (cells_nodes m ! c) s = i then fst (cell_pull m i c) else 0),
        (\<Sum>c<length (cells_nodes m). \<Sum>s<3.
           if slot (cells_nodes m ! c) s = i then snd (cell_pull m i c) else 0))"

definition gradient_spec :: "mesh \<Rightarrow> real list" where
  "gradient_spec m = flatten (map (node_gradient_spec m) (interior_ids m))"

text \<open>A pentagon of boundary nodes around one interior node, node 5. The edge from
  node 5 to node 0 is not Delaunay: the angles opposite to it, at nodes 4 and 1, are both
  obtuse.\<close>

definition pentagon_points :: "point list" where
  "pentagon_points = [(0, -1), (1/2, 1/2), (3, 3), (-3, 3), (-1/2, 1/2), (0, 2)]"

definition pentagon_cells :: "cell list" where
  "pentagon_cells = [(4, 0, 5), (0, 1, 5), (1, 2, 5), (2, 3, 5), (3, 4, 5)]"

subsection \<open>What the specification says of the relocation targets\<close>

text \<open>Section 4.2: a cell touches the boundary when one of its edges has exactly one
  incident cell; its target point is its barycenter, that of every other cell its
  circumcenter.\<close>

definition touches_boundary :: "cell list \<Rightarrow> nat \<Rightarrow> bool" where
  "touches_boundary cs c \<longleftrightarrow> list_ex (\<lambda>e. num_adjacent cs e = 1) (cell_edges (cs ! c))"

definition target_points :: "mesh \<Rightarrow> point list" where
  "target_points m =
     map (\<lambda>c. if touches_boundary (cells_nodes m) c then cell_barycenters m ! c
               else cell_circumcenters m ! c)
         [0..<length (cells_nodes m)]"

definition pentagon_mesh :: mesh where
  "pentagon_mesh =
     \<lparr> node_coords = pentagon_points, cells_nodes = pentagon_cells,
       is_interior_node = [False, False, False, False, False, True],
       cell_volumes = [3/4, 3/4, 5/2, 3, 5/2],
       cell_circumcenters = [(2, 1/2), (-2, 1/2), (7/4, 7/4), (0, 7), (-7/4, 7/4)],
       cell_barycenters = [(-1/6, 1/2), (1/6, 1/2), (7/6, 11/6), (0, 8/3), (-7/6, 11/6)],
       boundary_cell_ids = [0, 1, 2, 3, 4] \<rparr>"

subsection \<open>The collaborators of the optimizer\<close>

text \<open>What the run relies on of \<open>flip_until_delaunay\<close> (section 4.3): it changes the
  connectivity, not the node positions, and the partition into interior and boundary
  nodes is fixed for the run (section 3).\<close>

definition flip_contract :: "(mesh \<Rightarrow> mesh) \<Rightarrow> bool" where
  "flip_contract flip \<longleftrightarrow>
     (\<forall>m. node_coords (flip m) = node_coords m \<and>
          is_interior_node (flip m) = is_interior_node m)"

text \<open>A flip operation to evaluate runs with. Two cells that share an edge are flipped
  when the cotangents of the two angles opposite to the edge sum to less than zero (the
  edge is not Delaunay); the first such pair is flipped, at most as many times as there
  are pairs of cells, and the geometry is recomputed.\<close>

definition rotations :: "cell \<Rightarrow> cell list" where
  "rotations c = (case c of (a, b, d) \<Rightarrow> [(a, b, d), (b, d, a), (d, a, b)])"

definition cot_at :: "point \<Rightarrow> point \<Rightarrow> point \<Rightarrow> real" where
  "cot_at p q r =
     (let u = vsub p r; v = vsub q r in
      (fst u * fst v + snd u * snd v) / \<bar>fst u * snd v - snd u * fst v\<bar>)"

definition flip_pair :: "point list \<Rightarrow> cell \<Rightarrow> cell \<Rightarrow> (cell \<times> cell) option" where
  "flip_pair x c1 c2 =
     (case concat (map (\<lambda>(p, q, r).
             concat (map (\<lambda>(q', p', s).
               if p' = p \<and> q' = q \<and>
                  cot_at (x ! p) (x ! q) (x ! r) + cot_at (x ! p) (x ! q) (x ! s) < 0
               then [((r, p, s), (s, q, r))] else [])
             (rotations c2)))
           (rotations c1)) of
        [] \<Rightarrow> None
      | t # ts \<Rightarrow> Some t)"

definition flip_once :: "point list \<Rightarrow> cell list \<Rightarrow> cell list option" where
  "flip_once x cs =
     (case List.find (\<lambda>(i, j). flip_pair x (cs ! i) (cs ! j) \<noteq> None)
             (concat (map (\<lambda>i. map (\<lambda>j. (i, j)) [Suc i..<length cs]) [0..<length cs])) of
        None \<Rightarrow> None
      | Some (i, j) \<Rightarrow>
          (case flip_pair x (cs ! i) (cs ! j) of
             None \<Rightarrow> None
           | Some (t1, t2) \<Rightarrow> Some (cs[i := t1, j := t2])))"

fun flip_loop :: "point list \<Rightarrow> nat \<Rightarrow> cell list \<Rightarrow> cell list" where
  "flip_loop x 0 cs = cs"
| "flip_loop x (Suc k) cs =
     (case flip_once x cs of None \<Rightarrow> cs | Some cs' \<Rightarrow> flip_loop x k cs')"

definition flip_reference :: "mesh \<Rightarrow> mesh" where
  "flip_reference m =
     (let cs = flip_loop (node_coords m) (length (cells_nodes m) * length (cells_nodes m))
                 (cells_nodes m) in
      case update_values (m\<lparr> cells_nodes := cs, boundary_cell_ids := edges_cells_1 cs \<rparr>) of
        Inl e \<Rightarrow> m
      | Inr m' \<Rightarrow> m')"

text \<open>A minimizer that stays at its start vector: it may evaluate \<open>f\<close> and \<open>jac\<close> there,
  accepts no step and returns the start vector. This is what the BFGS method of scipy
  does when \<open>maxiter\<close> is 0: it evaluates both at \<open>x0\<close> and does not enter its loop.\<close>

primrec idle_at :: "real list \<Rightarrow> minimizer \<Rightarrow> bool" where
  "idle_at x0 (Done x success nit) \<longleftrightarrow> x = x0"
| "idle_at x0 (Eval_f x k) \<longleftrightarrow> x = x0 \<and> (\<forall>v. idle_at x0 (k v))"
| "idle_at x0 (Eval_jac x k) \<longleftrightarrow> x = x0 \<and> (\<forall>g. idle_at x0 (k g))"
| "idle_at x0 (Accept x t) \<longleftrightarrow> False"

text \<open>A minimizer to evaluate runs with: steepest descent with a fixed step length,
  accepting every step, until the cap is reached.\<close>

fun descent :: "real \<Rightarrow> nat \<Rightarrow> nat \<Rightarrow> real list \<Rightarrow> minimizer" where
  "descent a nit 0 x = Eval_f x (\<lambda>v. Eval_jac x (\<lambda>g. Done x False nit))"
| "descent a nit (Suc k) x =
     Eval_f x (\<lambda>v. Eval_jac x (\<lambda>g.
       Accept (map2 (\<lambda>xi gi. xi - a * gi) x g)
         (descent a (Suc nit) k (map2 (\<lambda>xi gi. xi - a * gi) x g))))"

definition steepest_descent :: "real \<Rightarrow> real list \<Rightarrow> real \<Rightarrow> int \<Rightarrow> minimizer" where
  "steepest_descent a x0 tol maxiter = descent a 0 (nat maxiter) x0"

text \<open>The same minimizer reporting another \<open>out.success\<close>.\<close>

primrec with_success :: "bool \<Rightarrow> minimizer \<Rightarrow> minimizer" where
  "with_success b (Done x success nit) = Done x b nit"
| "with_success b (Eval_f x k) = Eval_f x (\<lambda>v. with_success b (k v))"
| "with_success b (Eval_jac x k) = Eval_jac x (\<lambda>g. with_success b (k g))"
| "with_success b (Accept x t) = Accept x (with_success b t)"

text \<open>The calls of the caller's callback in a trace, and the state an outcome carries.\<close>

fun calls :: "event list \<Rightarrow> (nat \<times> mesh) list" where
  "calls [] = []"
| "calls (Called k m # evs) = (k, m) # calls evs"
| "calls (ev # evs) = calls evs"

definition state_of :: "'a outcome \<Rightarrow> run_state" where
  "state_of r = (case r of Inl (e, st) \<Rightarrow> st | Inr (a, st) \<Rightarrow> st)"

subsection \<open>The frame of a run\<close>

text \<open>The mesh keeps the interior flags \<open>msk\<close>, has as many nodes as \<open>X\<close>, and holds the
  coordinates of \<open>X\<close> at every node that is not interior.\<close>

definition anchored :: "point list \<Rightarrow> bool list \<Rightarrow> mesh \<Rightarrow> bool" where
  "anchored X msk m \<longleftrightarrow>
     is_interior_node m = msk \<and> length (node_coords m) = length X \<and>
     (\<forall>i<length X. \<not> msk ! i \<longrightarrow> node_coords m ! i = X ! i)"

definition same_boundary :: "point list \<Rightarrow> cell list \<Rightarrow> point list \<Rightarrow> bool" where
  "same_boundary X cells pts \<longleftrightarrow>
     length pts = length X \<and>
     (\<forall>i<length X. \<not> interior_nodes (length X) cells ! i \<longrightarrow> pts ! i = X ! i)"

text \<open>The pentagon after the flip of the edge from node 5 to node 0.\<close>

definition pentagon_flipped :: mesh where
  "pentagon_flipped =
     \<lparr> node_coords = pentagon_points,
       cells_nodes = [(4, 0, 1), (1, 5, 4), (1, 2, 5), (2, 3, 5), (3, 4, 5)],
       is_interior_node = [False, False, False, False, False, True],
       cell_volumes = [3/4, 3/4, 5/2, 3, 5/2],
       cell_circumcenters = [(0, -1/6), (0, 7/6), (7/4, 7/4), (0, 7), (-7/4, 7/4)],
       cell_barycenters = [(0, 0), (0, 1), (7/6, 11/6), (0, 8/3), (-7/6, 11/6)],
       boundary_cell_ids = [0, 0, 2, 3, 4] \<rparr>"

text \<open>A minimizer that accepts one step, to the given vector, and returns it.\<close>

definition one_step :: "real list \<Rightarrow> real list \<Rightarrow> real \<Rightarrow> int \<Rightarrow> minimizer" where
  "one_step x1 x0 tol maxiter = Accept x1 (Done x1 True 1)"

text \<open>The pentagon with node 5 moved to \<open>(0, 1)\<close>, before and after the flip of the edge
  from node 5 to node 0, and the state in which the run that accepts this one step ends
  when the caller gave a callback.\<close>

definition moved_points :: "point list" where
  "moved_points = [(0, -1), (1/2, 1/2), (3, 3), (-3, 3), (-1/2, 1/2), (0, 1)]"

definition pentagon_moved :: mesh where
  "pentagon_moved =
     \<lparr> node_coords = moved_points, cells_nodes = pentagon_cells,
       is_interior_node = [False, False, False, False, False, True],
       cell_volumes = [1/2, 1/2, 5/4, 6, 5/4],
       cell_circumcenters = [(1/2, 0), (-1/2, 0), (3/2, 2), (0, 17/4), (-3/2, 2)],
       cell_barycenters = [(-1/6, 1/6), (1/6, 1/6), (7/6, 3/2), (0, 7/3), (-7/6, 3/2)],
       boundary_cell_ids = [0, 1, 2, 3, 4] \<rparr>"

definition pentagon_moved_flipped :: mesh where
  "pentagon_moved_flipped =
     \<lparr> node_coords = moved_points,
       cells_nodes = [(4, 0, 1), (1, 5, 4), (1, 2, 5), (2, 3, 5), (3, 4, 5)],
       is_interior_node = [False, False, False, False, False, True],
       cell_volumes = [3/4, 1/4, 5/4, 6, 5/4],
       cell_circumcenters = [(0, -1/6), (0, 1/2), (3/2, 2), (0, 17/4), (-3/2, 2)],
       cell_barycenters = [(0, 0), (0, 2/3), (7/6, 3/2), (0, 7/3), (-7/6, 3/2)],
       boundary_cell_ids = [0, 0, 2, 3, 4] \<rparr>"

definition one_step_final :: run_state where
  "one_step_final =
     \<lparr> the_mesh = pentagon_moved_flipped, step = 1,
       trace = [Stats_before (67/6), Called 0 pentagon_mesh, Called 1 pentagon_moved_flipped,
                Stats_final 1 (61/6)] \<rparr>"

subsection \<open>What the specification says of the end of a run\<close>

text \<open>Section 4.3, \<open>FINAL_FLIP\<close>: the minimizer's final iterate is applied to the mesh, the
  geometry is recomputed, and the edges are flipped until the mesh is Delaunay.\<close>

definition final_mesh :: "(mesh \<Rightarrow> mesh) \<Rightarrow> real list \<Rightarrow> mesh \<Rightarrow> error + mesh" where
  "final_mesh flip x m =
     (case write_interior x m of
        Inl e \<Rightarrow> Inl e
      | Inr m1 \<Rightarrow> (case update_values m1 of Inl e \<Rightarrow> Inl e | Inr m2 \<Rightarrow> Inr (flip m2)))"

section \<open>The energy functional\<close>

lemma add_at_length:
  "add_at pl a idx vals = Inr a' \<Longrightarrow> length a' = length a"
  by (induction pl a idx vals rule: add_at.induct) (auto split: if_splits)

lemma add_at_ok:
  "length vals = length idx \<Longrightarrow> \<forall>i\<in>set idx. i < length a \<Longrightarrow> \<exists>a'. add_at pl a idx vals = Inr a'"
  by (induction pl a idx vals rule: add_at.induct) auto

lemma add_at_nth:
  "add_at (+) a idx vals = Inr a' \<Longrightarrow> j < length a \<Longrightarrow>
   a' ! j = a ! j + (\<Sum>k<length idx. if idx ! k = j then vals ! k else (0::real))"
proof (induction "(+) :: real \<Rightarrow> real \<Rightarrow> real" a idx vals arbitrary: a' rule: add_at.induct)
  case (1 a)
  then show ?case by simp
next
  case (2 a i idx v vals)
  then have il: "i < length a" and rec: "add_at (+) (a[i := a ! i + v]) idx vals = Inr a'"
    by (auto split: if_splits)
  have "a' ! j = (a[i := a ! i + v]) ! j + (\<Sum>k<length idx. if idx ! k = j then vals ! k else 0)"
    using 2(1)[OF il rec] 2(3) by simp
  moreover have "(\<Sum>k<length (i # idx). if (i # idx) ! k = j then (v # vals) ! k else 0)
      = (if i = j then v else 0) + (\<Sum>k<length idx. if idx ! k = j then vals ! k else 0)"
    by (subst length_Cons, subst sum.lessThan_Suc_shift) (simp cong: if_cong)
  ultimately show ?case using il 2(3) by (auto simp: nth_list_update)
qed simp_all

lemma sum_list_map2_nth:
  "length a = length b \<Longrightarrow> sum_list (map2 g a b) = (\<Sum>i<length a. g (a ! i) (b ! i) :: real)"
  by (simp add: sum_list_sum_nth atLeast0LessThan)

lemma sum_list_map_nth:
  "sum_list (map g xs) = (\<Sum>i<length xs. g (xs ! i) :: real)"
  by (simp add: sum_list_sum_nth atLeast0LessThan)

lemma slot_less: "cell_in_range n c \<Longrightarrow> slot c s < n"
  by (auto simp: cell_in_range_def slot_def split: prod.splits)

lemma star_volume_step_ok:
  assumes len: "length (cell_volumes m) = length (cells_nodes m)"
    and rng: "list_all (cell_in_range (length sv)) (cells_nodes m)"
  shows "\<exists>sv'. star_volume_step m ud sv i = Inr sv' \<and> length sv' = length sv \<and>
     (\<forall>j<length sv. sv' ! j = sv ! j +
        (\<Sum>c<length (cells_nodes m). if slot (cells_nodes m ! c) i = j then cell_weight m ud c else 0))"
proof -
  let ?idx = "column (cells_nodes m) i"
  let ?vals = "if ud then cell_volumes m else replicate (length ?idx) 1"
  have step: "star_volume_step m ud sv i = add_at (+) sv ?idx ?vals"
    by (simp add: star_volume_step_def Let_def)
  have l: "length ?vals = length ?idx" using len by (simp add: column_def)
  have r: "\<forall>i\<in>set ?idx. i < length sv"
    using rng by (auto simp: column_def list_all_iff slot_less)
  obtain sv' where sv': "add_at (+) sv ?idx ?vals = Inr sv'"
    using add_at_ok[OF l r] by blast
  have "\<And>j. j < length sv \<Longrightarrow> sv' ! j = sv ! j +
        (\<Sum>c<length (cells_nodes m). if slot (cells_nodes m ! c) i = j then cell_weight m ud c else 0)"
  proof -
    fix j assume j: "j < length sv"
    have "(\<Sum>k<length ?idx. if ?idx ! k = j then ?vals ! k else 0)
        = (\<Sum>c<length (cells_nodes m). if slot (cells_nodes m ! c) i = j then cell_weight m ud c else 0)"
      by (rule sum.cong) (auto simp: column_def cell_weight_def)
    then show "sv' ! j = sv ! j +
        (\<Sum>c<length (cells_nodes m). if slot (cells_nodes m ! c) i = j then cell_weight m ud c else 0)"
      using add_at_nth[OF sv' j] by simp
  qed
  then show ?thesis using sv' step add_at_length[OF sv'] by auto
qed

lemma star_volume_loop_ok:
  assumes len: "length (cell_volumes m) = length (cells_nodes m)"
    and rng: "list_all (cell_in_range n) (cells_nodes m)"
  shows "\<exists>sv. star_volume_loop m ud (replicate n 0) [0, 1, 2] = Inr sv \<and> length sv = n \<and>
     (\<forall>j<n. sv ! j = (\<Sum>c<length (cells_nodes m). \<Sum>s<3.
        if slot (cells_nodes m ! c) s = j then cell_weight m ud c else 0))"
proof -
  let ?t = "\<lambda>i j. (\<Sum>c<length (cells_nodes m). if slot (cells_nodes m ! c) i = j then cell_weight m ud c else 0)"
  obtain s0 where s0: "star_volume_step m ud (replicate n 0) 0 = Inr s0" "length s0 = n"
      "\<forall>j<n. s0 ! j = ?t 0 j"
    using star_volume_step_ok[OF len, of "replicate n 0" ud 0] rng by auto
  obtain s1 where s1: "star_volume_step m ud s0 1 = Inr s1" "length s1 = n"
      "\<forall>j<n. s1 ! j = s0 ! j + ?t 1 j"
    using star_volume_step_ok[OF len, of s0 ud 1] rng s0(2) by auto
  obtain s2 where s2: "star_volume_step m ud s1 2 = Inr s2" "length s2 = n"
      "\<forall>j<n. s2 ! j = s1 ! j + ?t 2 j"
    using star_volume_step_ok[OF len, of s1 ud 2] rng s1(2) by auto
  have three: "{..<3::nat} = {0, 1, 2}" by auto
  have "\<forall>j<n. s2 ! j = (\<Sum>c<length (cells_nodes m). \<Sum>s<3.
        if slot (cells_nodes m ! c) s = j then cell_weight m ud c else 0)"
    using s0(3) s1(3) s2(3) by (simp add: three sum.distrib)
  then show ?thesis using s0(1) s1(1) s2(1,2) by simp
qed

lemma gather_ok:
  "list_all (cell_in_range (length x)) cs \<Longrightarrow>
   gather x cs = Inr (map (\<lambda>c. case c of (a, b, d) \<Rightarrow> (x ! a, x ! b, x ! d)) cs)"
  by (induction cs) (auto simp: corners_def cell_in_range_def)

lemma energy_unfold:
  assumes len: "length (cell_volumes m) = length (cells_nodes m)"
    and rng: "list_all (cell_in_range (length (node_coords m))) (cells_nodes m)"
  shows "energy m ud =
     (if \<not> ud \<and> 0 \<in> set (cell_volumes m) then Inl AssertionError
      else if I_code m ud \<le> S_spec m ud then Inr (S_spec m ud - I_code m ud)
      else Inl AssertionError)"
proof -
  let ?n = "length (node_coords m)"
  obtain sv where sv: "star_volume_loop m ud (replicate ?n 0) [0, 1, 2] = Inr sv"
      "length sv = ?n" "\<forall>j<?n. sv ! j = star_volume_spec m ud j"
    using star_volume_loop_ok[OF len rng, of ud] by (auto simp: star_volume_spec_def)
  have d: "dot sv (map norm2 (node_coords m)) =
      Inr (\<Sum>i<?n. star_volume_spec m ud i * norm2 (node_coords m ! i))"
    using sv(2,3) by (simp add: dot_def sum_list_map2_nth)
  have out: "1 / real (dim m + 1) * (\<Sum>i<?n. star_volume_spec m ud i * norm2 (node_coords m ! i))
      = S_spec m ud"
    by (simp add: dim_def S_spec_def)
  have g: "gather (node_coords m) (cells_nodes m) =
      Inr (map (\<lambda>c. case c of (a, b, d) \<Rightarrow> (node_coords m ! a, node_coords m ! b, node_coords m ! d))
            (cells_nodes m))"
    by (rule gather_ok[OF rng])
  have tri: "\<And>c. c < length (cells_nodes m) \<Longrightarrow>
      (case cells_nodes m ! c of (a, b, d) \<Rightarrow> (node_coords m ! a, node_coords m ! b, node_coords m ! d))
        = cell_points m c"
    by (simp add: cell_points_def)
  have vu: "sum_list (map (dunavant2 norm2)
        (map (\<lambda>c. case c of (a, b, d) \<Rightarrow> (node_coords m ! a, node_coords m ! b, node_coords m ! d))
            (cells_nodes m))) = I_code m True"
    by (simp add: sum_list_map_nth I_code_def tri)
  have vn: "dot (map (dunavant2 norm2)
        (map (\<lambda>c. case c of (a, b, d) \<Rightarrow> (node_coords m ! a, node_coords m ! b, node_coords m ! d))
            (cells_nodes m))) (map (\<lambda>v. 1 / v) (cell_volumes m)) = Inr (I_code m False)"
    using len by (simp add: dot_def sum_list_map2_nth I_code_def tri)
  show ?thesis
  proof (cases ud)
    case True
    then show ?thesis
      unfolding energy_def using sv(1) d out g vu by (simp add: dim_def Let_def)
  next
    case False
    then show ?thesis
      unfolding energy_def using sv(1) d out g vn by (simp add: dim_def Let_def)
  qed
qed

lemma scheme_points_sum:
  "norm2 (bary (2/3) (1/6) (1/6) a b c) + norm2 (bary (1/6) (2/3) (1/6) a b c)
     + norm2 (bary (1/6) (1/6) (2/3) a b c)
   = norm2 (midpoint a b) + norm2 (midpoint b c) + norm2 (midpoint c a)"
  by (simp add: bary_def midpoint_def norm2_def vadd_def smul_def field_simps)

lemma dunavant2_midpoint:
  "dunavant2 norm2 t = midpoint_rule norm2 t"
proof -
  obtain a b c where t: "t = (a, b, c)" by (cases t) auto
  have "tri_area a b c *
       (norm2 (bary (2/3) (1/6) (1/6) a b c) * (1/3)
        + norm2 (bary (1/6) (2/3) (1/6) a b c) * (1/3)
        + norm2 (bary (1/6) (1/6) (2/3) a b c) * (1/3))
     = tri_area a b c / 3 * (norm2 (bary (2/3) (1/6) (1/6) a b c)
        + norm2 (bary (1/6) (2/3) (1/6) a b c) + norm2 (bary (1/6) (1/6) (2/3) a b c))"
    by (simp add: algebra_simps)
  then show ?thesis
    by (simp add: t dunavant2_def midpoint_rule_def scheme_points_sum)
qed

lemma I_code_spec: "I_code m ud = I_spec m ud"
  unfolding I_code_def I_spec_def
  by (rule sum.cong) (simp_all add: dunavant2_midpoint)

lemma S_spec_cells:
  assumes rng: "list_all (cell_in_range (length (node_coords m))) (cells_nodes m)"
  shows "S_spec m ud = (\<Sum>c<length (cells_nodes m). cell_weight m ud c * (corner_sum (cell_points m c) / 3))"
proof -
  let ?n = "length (node_coords m)" and ?nc = "length (cells_nodes m)"
  let ?x2 = "\<lambda>i. norm2 (node_coords m ! i)"
  let ?w = "cell_weight m ud"
  let ?sl = "\<lambda>c s. slot (cells_nodes m ! c) s"
  have sl: "\<And>c s. c < ?nc \<Longrightarrow> ?sl c s < ?n"
    using rng by (simp add: list_all_length slot_less)
  have "(\<Sum>i<?n. star_volume_spec m ud i * ?x2 i)
      = (\<Sum>i<?n. \<Sum>c<?nc. \<Sum>s<3. if ?sl c s = i then ?w c * ?x2 i else 0)"
    unfolding star_volume_spec_def sum_distrib_right
    by (intro sum.cong refl) simp
  also have "\<dots> = (\<Sum>c<?nc. \<Sum>i<?n. \<Sum>s<3. if ?sl c s = i then ?w c * ?x2 i else 0)"
    by (rule sum.swap)
  also have "\<dots> = (\<Sum>c<?nc. \<Sum>s<3. \<Sum>i<?n. if ?sl c s = i then ?w c * ?x2 i else 0)"
    by (rule sum.cong[OF refl]) (rule sum.swap)
  also have "\<dots> = (\<Sum>c<?nc. \<Sum>s<3. ?w c * ?x2 (?sl c s))"
    by (intro sum.cong refl) (simp add: sum.delta' sl)
  also have "\<dots> = (\<Sum>c<?nc. ?w c * corner_sum (cell_points m c))"
  proof (intro sum.cong refl)
    fix c
    have three: "{..<3::nat} = {0, 1, 2}" by auto
    show "(\<Sum>s<3. ?w c * ?x2 (?sl c s)) = ?w c * corner_sum (cell_points m c)"
      by (simp add: three slot_def corner_sum_def cell_points_def algebra_simps split: prod.splits)
  qed
  finally show ?thesis
    by (simp add: S_spec_def sum_distrib_left)
qed

lemma cell_gap:
  "corner_sum t / 3
     - (case t of (a, b, c) \<Rightarrow> norm2 (midpoint a b) + norm2 (midpoint b c) + norm2 (midpoint c a)) / 3
   = edge_sum t / 12"
  by (cases t) (simp add: corner_sum_def edge_sum_def midpoint_def norm2_def vadd_def vsub_def
      smul_def field_simps)

lemma edge_sum_nonneg: "0 \<le> edge_sum t"
  by (cases t) (simp add: edge_sum_def norm2_def)

lemma valid_mesh_volume:
  assumes "valid_mesh m" and c: "c < length (cells_nodes m)"
  shows "cell_volumes m ! c = (case cell_points m c of (a, b, d) \<Rightarrow> tri_area a b d)
     \<and> 0 < cell_volumes m ! c"
proof -
  have "\<forall>c\<in>set [0..<length (cells_nodes m)].
      cell_volumes m ! c = (case cell_points m c of (a, b, d) \<Rightarrow> tri_area a b d)
      \<and> 0 < cell_volumes m ! c"
    using assms(1) unfolding valid_mesh_def list_all_iff by blast
  then show ?thesis by (rule bspec) (simp add: c)
qed

lemma energy_gap:
  assumes v: "valid_mesh m"
  shows "S_spec m ud - I_spec m ud =
     (\<Sum>c<length (cells_nodes m). cell_weight m ud c * (edge_sum (cell_points m c) / 12))"
proof -
  have rng: "list_all (cell_in_range (length (node_coords m))) (cells_nodes m)"
    using v by (simp add: valid_mesh_def)
  have vol: "\<And>c. c < length (cells_nodes m) \<Longrightarrow>
      cell_volumes m ! c = (case cell_points m c of (a, b, d) \<Rightarrow> tri_area a b d) \<and> 0 < cell_volumes m ! c"
    using valid_mesh_volume[OF v] by blast
  have "S_spec m ud - I_spec m ud =
      (\<Sum>c<length (cells_nodes m). cell_weight m ud c * (corner_sum (cell_points m c) / 3)
         - (if ud then midpoint_rule norm2 (cell_points m c)
            else 1 / cell_volumes m ! c * midpoint_rule norm2 (cell_points m c)))"
    by (simp add: S_spec_cells[OF rng] I_spec_def sum_subtractf)
  also have "\<dots> = (\<Sum>c<length (cells_nodes m). cell_weight m ud c * (edge_sum (cell_points m c) / 12))"
  proof (intro sum.cong refl)
    fix c assume "c \<in> {..<length (cells_nodes m)}"
    then have c: "c < length (cells_nodes m)" by simp
    obtain a b d where t: "cell_points m c = (a, b, d)" by (cases "cell_points m c") auto
    have ar: "tri_area a b d = cell_volumes m ! c" and pos: "0 < cell_volumes m ! c"
      using vol[OF c] t by auto
    have gap: "corner_sum (a, b, d) / 3
        - (norm2 (midpoint a b) + norm2 (midpoint b d) + norm2 (midpoint d a)) / 3
        = edge_sum (a, b, d) / 12"
      using cell_gap[of "(a, b, d)"] by simp
    show "cell_weight m ud c * (corner_sum (cell_points m c) / 3)
         - (if ud then midpoint_rule norm2 (cell_points m c)
            else 1 / cell_volumes m ! c * midpoint_rule norm2 (cell_points m c))
         = cell_weight m ud c * (edge_sum (cell_points m c) / 12)"
    proof (cases ud)
      case True
      then show ?thesis
        using gap by (simp add: t cell_weight_def midpoint_rule_def ar algebra_simps)
    next
      case False
      then show ?thesis
        using gap pos by (simp add: t cell_weight_def midpoint_rule_def ar algebra_simps)
    qed
  qed
  finally show ?thesis .
qed

lemma energy_gap_nonneg:
  assumes v: "valid_mesh m"
  shows "I_spec m ud \<le> S_spec m ud"
proof -
  have vol: "\<And>c. c < length (cells_nodes m) \<Longrightarrow> 0 < cell_volumes m ! c"
    using valid_mesh_volume[OF v] by blast
  have "0 \<le> (\<Sum>c<length (cells_nodes m). cell_weight m ud c * (edge_sum (cell_points m c) / 12))"
    by (rule sum_nonneg) (use vol in \<open>auto simp: cell_weight_def edge_sum_nonneg less_imp_le\<close>)
  then show ?thesis using energy_gap[OF v, of ud] by simp
qed

text \<open>
  C1. For every valid mesh and either density mode, \<open>energy\<close> returns \<open>S - I\<close>: \<open>S\<close> is
  one third of the sum over the nodes of \<open>star_volume[i] * ||coords[i]||^2\<close>, the star
  volume adding, for each of the three node slots of every cell, the cell's volume
  (uniform density) or 1; \<open>I\<close> is the sum over the cells of a quadrature of \<open>||x||^2\<close>
  that is exact for degree 2, weighted by \<open>1 / volume\<close> when the density is not uniform.
  In exact arithmetic the assertion \<open>out >= val\<close> holds on every valid mesh, so the
  function returns.
\<close>

theorem energy_star_minus_integral:
  assumes "valid_mesh m"
  shows "energy m uniform_density = Inr (S_spec m uniform_density - I_spec m uniform_density)"
proof -
  have rng: "list_all (cell_in_range (length (node_coords m))) (cells_nodes m)"
    and len: "length (cell_volumes m) = length (cells_nodes m)"
    using assms by (simp_all add: valid_mesh_def)
  have nz: "0 \<notin> set (cell_volumes m)"
  proof
    assume "0 \<in> set (cell_volumes m)"
    then obtain c where c: "c < length (cell_volumes m)" "cell_volumes m ! c = 0"
      by (auto simp: in_set_conv_nth)
    have "0 < cell_volumes m ! c"
      using valid_mesh_volume[OF assms, of c] c(1) len by linarith
    then show False using c(2) by simp
  qed
  show ?thesis
    using energy_unfold[OF len rng, of uniform_density] nz energy_gap_nonneg[OF assms, of uniform_density]
    by (simp add: I_code_spec)
qed

lemma valid_unit_triangle: "valid_mesh unit_triangle"
  by (simp add: valid_mesh_def unit_triangle_def cell_in_range_def cell_distinct_def cell_points_def tri_area_def)

theorem energy_star_minus_integral_witness:
  "valid_mesh unit_triangle \<and> energy unit_triangle True = Inr (1/6)
     \<and> energy unit_triangle False = Inr (1/3)"
proof -
  have three: "{..<3::nat} = {0, 1, 2}" by auto
  have s: "S_spec unit_triangle True = 1/3" "S_spec unit_triangle False = 2/3"
    by (simp_all add: S_spec_def star_volume_spec_def unit_triangle_def cell_weight_def
        slot_def norm2_def three)
  have i: "I_spec unit_triangle True = 1/6" "I_spec unit_triangle False = 1/3"
    by (simp_all add: I_spec_def unit_triangle_def cell_points_def midpoint_rule_def midpoint_def
        tri_area_def norm2_def vadd_def smul_def)
  show ?thesis
    using energy_star_minus_integral[OF valid_unit_triangle, of True]
      energy_star_minus_integral[OF valid_unit_triangle, of False] valid_unit_triangle
    by (simp add: s i)
qed


section \<open>Arrays and the mesh object\<close>

lemma reshape2_flatten: "reshape2 (flatten ps) = Inr ps"
  by (induction ps) (auto simp: flatten_def)

lemma assign_rows_length: "length (assign_rows msk a rows) = length a"
  by (induction msk a rows rule: assign_rows.induct) (auto split: list.splits)

lemma assign_rows_frame:
  "i < length a \<Longrightarrow> i < length msk \<Longrightarrow> \<not> msk ! i \<Longrightarrow> assign_rows msk a rows ! i = a ! i"
proof (induction msk a rows arbitrary: i rule: assign_rows.induct)
  case (1 b bs p ps rows)
  then show ?case by (cases i) (auto split: list.splits)
qed simp_all

lemma assign_rows_selected:
  "length msk = length a \<Longrightarrow> assign_rows msk a (map snd (filter fst (zip msk a))) = a"
proof (induction msk a "map snd (filter fst (zip msk a))" rule: assign_rows.induct)
  case (1 b bs p ps)
  then show ?case by (auto split: list.splits)
qed simp_all

lemma select_assign_rows:
  "length msk = length a \<Longrightarrow> length rows = length (filter id msk) \<Longrightarrow>
   map snd (filter fst (zip msk (assign_rows msk a rows))) = rows"
proof (induction msk a rows rule: assign_rows.induct)
  case (1 b bs p ps rows)
  then show ?case by (cases rows) auto
qed simp_all

lemma set_masked_length: "set_masked msk a rows = Inr a' \<Longrightarrow> length a' = length a"
  by (auto simp: set_masked_def Let_def assign_rows_length split: if_splits)

lemma set_masked_mask: "set_masked msk a rows = Inr a' \<Longrightarrow> length msk = length a"
  by (auto simp: set_masked_def Let_def split: if_splits)

lemma set_masked_frame:
  "set_masked msk a rows = Inr a' \<Longrightarrow> i < length a \<Longrightarrow> \<not> msk ! i \<Longrightarrow> a' ! i = a ! i"
  by (auto simp: set_masked_def Let_def assign_rows_frame split: if_splits)

lemma length_selected:
  "length msk = length a \<Longrightarrow> length (filter fst (zip msk a)) = length (filter id msk)"
  by (induction msk a rule: list_induct2) auto

lemma set_masked_selected:
  "select msk a = Inr xi \<Longrightarrow> set_masked msk a xi = Inr a"
  by (auto simp: select_def set_masked_def Let_def assign_rows_selected length_selected
      split: if_splits)

lemma select_nth:
  "length msk = length a \<Longrightarrow>
   select msk a = Inr (map (\<lambda>i. a ! i) (filter (\<lambda>i. msk ! i) [0..<length a]))"
proof (induction msk arbitrary: a)
  case Nil
  then show ?case by (simp add: select_def)
next
  case (Cons b bs)
  then obtain p ps where a: "a = p # ps" by (cases a) auto
  have ih: "map snd (filter fst (zip bs ps)) = map (\<lambda>i. ps ! i) (filter (\<lambda>i. bs ! i) [0..<length ps])"
    using Cons.IH[of ps] Cons.prems a by (simp add: select_def)
  have sh: "[0..<Suc (length ps)] = 0 # map Suc [0..<length ps]"
    by (simp add: upt_conv_Cons map_Suc_upt del: upt_Suc)
  show ?case
    using Cons.prems a ih
    by (simp add: select_def sh filter_map comp_def del: upt_Suc)
qed

lemma take_at_ok:
  "\<forall>i\<in>set ids. i < length a \<Longrightarrow> take_at a ids = Inr (map (\<lambda>i. a ! i) ids)"
  by (induction ids) auto

lemma put_at_length: "put_at a ids vals = Inr a' \<Longrightarrow> length a' = length a"
  by (induction a ids vals arbitrary: a' rule: put_at.induct) (auto split: if_splits)

lemma put_at_same:
  "\<forall>i\<in>set ids. i < length a \<Longrightarrow> length b = length a \<Longrightarrow>
   \<exists>a'. put_at a ids (map (\<lambda>i. b ! i) ids) = Inr a' \<and> length a' = length a \<and>
     (\<forall>c<length a. a' ! c = (if c \<in> set ids then b ! c else a ! c))"
proof (induction ids arbitrary: a)
  case Nil
  then show ?case by simp
next
  case (Cons i ids)
  have "\<forall>j\<in>set ids. j < length (a[i := b ! i])" "length b = length (a[i := b ! i])"
    using Cons.prems by auto
  from Cons.IH[OF this] obtain a' where a': "put_at (a[i := b ! i]) ids (map (\<lambda>i. b ! i) ids) = Inr a'"
    "length a' = length a"
    "\<forall>c<length a. a' ! c = (if c \<in> set ids then b ! c else (a[i := b ! i]) ! c)"
    by auto
  show ?case using Cons.prems a' by (auto simp: nth_list_update)
qed

lemma gather_Inr:
  "gather x cs = Inr ts \<Longrightarrow>
   list_all (cell_in_range (length x)) cs \<and>
   ts = map (\<lambda>c. case c of (a, b, d) \<Rightarrow> (x ! a, x ! b, x ! d)) cs"
  by (induction cs arbitrary: ts)
     (auto simp: corners_def cell_in_range_def split: sum.splits if_splits prod.splits)

lemma update_values_frame:
  assumes "update_values m = Inr m'"
  shows "node_coords m' = node_coords m" "cells_nodes m' = cells_nodes m"
    "is_interior_node m' = is_interior_node m" "boundary_cell_ids m' = boundary_cell_ids m"
  using assms by (auto simp: update_values_def split: sum.splits)

lemma update_values_shape:
  assumes "update_values m = Inr m'"
  shows "list_all (cell_in_range (length (node_coords m))) (cells_nodes m)"
    "length (cell_volumes m') = length (cells_nodes m)"
    "length (cell_circumcenters m') = length (cells_nodes m)"
    "length (cell_barycenters m') = length (cells_nodes m)"
  using assms by (auto simp: update_values_def split: sum.splits dest!: gather_Inr)

lemma update_values_idem:
  assumes "update_values m = Inr m'"
  shows "update_values m' = Inr m'"
  using assms by (auto simp: update_values_def split: sum.splits)

lemma update_values_volumes:
  assumes "update_values m = Inr m'" and "c < length (cells_nodes m)"
  shows "cell_volumes m' ! c = (case cell_points m' c of (a, b, d) \<Rightarrow> tri_area a b d)"
    and "cell_barycenters m' ! c = (case cell_points m' c of (a, b, d) \<Rightarrow> barycenter a b d)"
    and "cell_circumcenters m' ! c = (case cell_points m' c of (a, b, d) \<Rightarrow> circumcenter a b d)"
  using assms
  by (auto simp: update_values_def cell_points_def split: sum.splits prod.splits dest!: gather_Inr)

lemma update_values_total:
  "list_all (cell_in_range (length (node_coords m))) (cells_nodes m) \<Longrightarrow> \<exists>m'. update_values m = Inr m'"
  by (simp add: update_values_def gather_ok)

lemma MeshTri_fields:
  assumes "MeshTri X cells = Inr m"
  shows "node_coords m = X" "cells_nodes m = cells"
    "is_interior_node m = interior_nodes (length X) cells"
    "boundary_cell_ids m = edges_cells_1 cells"
  using assms unfolding MeshTri_def by (auto dest: update_values_frame)

lemma MeshTri_well_formed:
  assumes "MeshTri X cells = Inr m"
  shows "well_formed m"
  using assms MeshTri_fields[OF assms] unfolding MeshTri_def well_formed_def
  by (auto dest: update_values_idem simp: interior_nodes_def)

lemma edges_cells_1_less: "c \<in> set (edges_cells_1 cs) \<Longrightarrow> c < length cs"
  by (auto simp: edges_cells_1_def)

lemma well_formed_shape:
  assumes "well_formed m"
  shows "list_all (cell_in_range (length (node_coords m))) (cells_nodes m)"
    "length (cell_volumes m) = length (cells_nodes m)"
    "length (cell_circumcenters m) = length (cells_nodes m)"
    "length (cell_barycenters m) = length (cells_nodes m)"
    "length (is_interior_node m) = length (node_coords m)"
    "\<forall>c\<in>set (boundary_cell_ids m). c < length (cells_nodes m)"
  using assms update_values_shape[of m m]
  by (auto simp: well_formed_def edges_cells_1_less)

lemma write_interior_frame:
  assumes "write_interior x m = Inr m'"
  shows "cells_nodes m' = cells_nodes m" "is_interior_node m' = is_interior_node m"
    "boundary_cell_ids m' = boundary_cell_ids m"
    "length (node_coords m') = length (node_coords m)"
    "length (is_interior_node m) = length (node_coords m)"
    "\<And>i. i < length (node_coords m) \<Longrightarrow> \<not> is_interior_node m ! i \<Longrightarrow>
       node_coords m' ! i = node_coords m ! i"
  using assms
  by (auto simp: write_interior_def split: sum.splits
      dest: set_masked_length set_masked_mask set_masked_frame)

lemma refresh_frame:
  assumes "refresh x st = Inr (u, st')"
  shows "step st' = step st" "trace st' = trace st"
    "cells_nodes (the_mesh st') = cells_nodes (the_mesh st)"
    "is_interior_node (the_mesh st') = is_interior_node (the_mesh st)"
    "boundary_cell_ids (the_mesh st') = boundary_cell_ids (the_mesh st)"
    "length (node_coords (the_mesh st')) = length (node_coords (the_mesh st))"
    "length (is_interior_node (the_mesh st')) = length (node_coords (the_mesh st'))"
    "update_values (the_mesh st') = Inr (the_mesh st')"
    "\<And>i. i < length (node_coords (the_mesh st)) \<Longrightarrow> \<not> is_interior_node (the_mesh st) ! i \<Longrightarrow>
       node_coords (the_mesh st') ! i = node_coords (the_mesh st) ! i"
proof -
  obtain m1 m2 where w: "write_interior x (the_mesh st) = Inr m1"
    and up: "update_values m1 = Inr m2" and st': "st' = st\<lparr> the_mesh := m2 \<rparr>"
    using assms by (auto simp: refresh_def split: sum.splits)
  note wf = write_interior_frame[OF w] and uf = update_values_frame[OF up]
  show "step st' = step st" "trace st' = trace st" by (simp_all add: st')
  show "cells_nodes (the_mesh st') = cells_nodes (the_mesh st)"
    "is_interior_node (the_mesh st') = is_interior_node (the_mesh st)"
    "boundary_cell_ids (the_mesh st') = boundary_cell_ids (the_mesh st)"
    "length (node_coords (the_mesh st')) = length (node_coords (the_mesh st))"
    "length (is_interior_node (the_mesh st')) = length (node_coords (the_mesh st'))"
    by (simp_all add: st' wf uf)
  show "update_values (the_mesh st') = Inr (the_mesh st')"
    using update_values_idem[OF up] by (simp add: st')
  show "\<And>i. i < length (node_coords (the_mesh st)) \<Longrightarrow> \<not> is_interior_node (the_mesh st) ! i \<Longrightarrow>
       node_coords (the_mesh st') ! i = node_coords (the_mesh st) ! i"
    by (simp add: st' wf uf)
qed

lemmas eval_defs = energy_def star_volume_step_def column_def slot_def dot_def corners_def
  dunavant2_def tri_area_def bary_def vadd_def vsub_def smul_def norm2_def dim_def Let_def

lemmas mesh_eval_defs = MeshTri_def update_values_def interior_nodes_def edges_cells_1_def
  boundary_edges_def num_adjacent_def cell_edges_def edge_def circumcenter_def barycenter_def



section \<open>The assertion of the energy\<close>

lemma energy_nonneg: "energy m ud = Inr r \<Longrightarrow> 0 \<le> r"
  by (auto simp: energy_def Let_def split: sum.splits if_splits)

lemma before_statistics_fatal:
  assumes "MeshTri X cells = Inr m" and "energy m False = Inl e"
  shows "result_of (nonlinear_optimization_uniform flip minimize X cells tol max_num_steps
           verbose save_steps has_callback) = Inl e"
  using assms
  by (simp add: nonlinear_optimization_uniform_def optimizing_def energy_default_def
      result_of_def Let_def)

lemma energy_unit_triangle: "energy unit_triangle True = Inr (1/6)"
  by (simp add: eval_defs unit_triangle_def)

lemma energy_stale_triangle:
  "length (cell_volumes stale_triangle) = length (cells_nodes stale_triangle)"
  "list_all (cell_in_range (length (node_coords stale_triangle))) (cells_nodes stale_triangle)"
  "S_spec stale_triangle True = 1/12" "I_spec stale_triangle True = 1/6"
proof -
  have three: "{..<3::nat} = {0, 1, 2}" by auto
  show "length (cell_volumes stale_triangle) = length (cells_nodes stale_triangle)"
    "list_all (cell_in_range (length (node_coords stale_triangle))) (cells_nodes stale_triangle)"
    by (simp_all add: stale_triangle_def unit_triangle_def cell_in_range_def)
  show "S_spec stale_triangle True = 1/12"
    by (simp add: S_spec_def star_volume_spec_def stale_triangle_def unit_triangle_def
        cell_weight_def slot_def norm2_def three)
  show "I_spec stale_triangle True = 1/6"
    by (simp add: I_spec_def stale_triangle_def unit_triangle_def cell_points_def
        midpoint_rule_def midpoint_def tri_area_def norm2_def vadd_def smul_def)
qed

lemma MeshTri_flat_points:
  "MeshTri flat_points [(0, 1, 2)] = Inr \<lparr> node_coords = flat_points, cells_nodes = [(0, 1, 2)],
         is_interior_node = [False, False, False],
         cell_volumes = [0], cell_circumcenters = [(0, 0)], cell_barycenters = [(1, 0)],
         boundary_cell_ids = [0, 0, 0] \<rparr>"
  by (simp add: mesh_eval_defs flat_points_def eval_defs)

lemma energy_flat_points:
  "energy \<lparr> node_coords = flat_points, cells_nodes = [(0, 1, 2)],
         is_interior_node = [False, False, False],
         cell_volumes = [0], cell_circumcenters = [(0, 0)], cell_barycenters = [(1, 0)],
         boundary_cell_ids = [0, 0, 0] \<rparr> False = Inl AssertionError"
  by (simp add: flat_points_def eval_defs)

text \<open>
  C2. \<open>energy\<close> asserts that the star-volume contribution is at least the integral term
  before it returns their difference: whenever it returns, the result is not negative;
  where the bound fails it raises \<open>AssertionError\<close>; and the exception is fatal, as
  nothing catches it: raised while the first statistics are computed, it ends
  \<open>nonlinear_optimization_uniform\<close>.
\<close>

theorem energy_asserts_bound:
  "(\<forall>r. energy m ud = Inr r \<longrightarrow> 0 \<le> r) \<and>
   (length (cell_volumes m) = length (cells_nodes m) \<and>
    list_all (cell_in_range (length (node_coords m))) (cells_nodes m) \<and>
    S_spec m ud < I_spec m ud \<longrightarrow> energy m ud = Inl AssertionError) \<and>
   (\<forall>X cells m0 e. MeshTri X cells = Inr m0 \<and> energy m0 False = Inl e \<longrightarrow>
      result_of (nonlinear_optimization_uniform flip minimize X cells tol max_num_steps
        verbose save_steps has_callback) = Inl e)"
proof (intro conjI allI impI)
  fix r assume "energy m ud = Inr r"
  then show "0 \<le> r" by (rule energy_nonneg)
next
  assume a: "length (cell_volumes m) = length (cells_nodes m) \<and>
    list_all (cell_in_range (length (node_coords m))) (cells_nodes m) \<and> S_spec m ud < I_spec m ud"
  then show "energy m ud = Inl AssertionError"
    using energy_unfold[of m ud] by (simp add: I_code_spec)
next
  fix X cells m0 e
  assume "MeshTri X cells = Inr m0 \<and> energy m0 False = Inl e"
  then show "result_of (nonlinear_optimization_uniform flip minimize X cells tol max_num_steps
        verbose save_steps has_callback) = Inl e"
    by (simp add: before_statistics_fatal)
qed

theorem energy_asserts_bound_witness:
  "energy unit_triangle True = Inr (1/6) \<and> (0::real) \<le> 1/6 \<and>
   S_spec stale_triangle True < I_spec stale_triangle True \<and>
   energy stale_triangle True = Inl AssertionError \<and>
   result_of (nonlinear_optimization_uniform id (\<lambda>x0 tol n. Done x0 True 0) flat_points
     [(0, 1, 2)] 0 0 False False False) = Inl AssertionError"
proof -
  note th = energy_asserts_bound[of stale_triangle True id "\<lambda>x0 tol n. Done x0 True 0" 0 0
      False False False]
  have a: "0 \<le> (1/6::real)"
    using energy_asserts_bound[of unit_triangle True] energy_unit_triangle by blast
  have b: "energy stale_triangle True = Inl AssertionError"
    using th energy_stale_triangle by simp
  have c: "result_of (nonlinear_optimization_uniform id (\<lambda>x0 tol n. Done x0 True 0) flat_points
     [(0, 1, 2)] 0 0 False False False) = Inl AssertionError"
    using th MeshTri_flat_points energy_flat_points by blast
  show ?thesis using a b c energy_unit_triangle energy_stale_triangle by simp
qed


section \<open>The gradient\<close>

lemma add_at_fst:
  "add_at vadd a idx vals = Inr a' \<Longrightarrow> add_at (+) (map fst a) idx (map fst vals) = Inr (map fst a')"
  by (induction vadd a idx vals arbitrary: a' rule: add_at.induct)
     (auto simp: vadd_def map_update split: if_splits)

lemma add_at_snd:
  "add_at vadd a idx vals = Inr a' \<Longrightarrow> add_at (+) (map snd a) idx (map snd vals) = Inr (map snd a')"
  by (induction vadd a idx vals arbitrary: a' rule: add_at.induct)
     (auto simp: vadd_def map_update split: if_splits)

lemma add_at_vadd_nth:
  assumes "add_at vadd a idx vals = Inr a'" and j: "j < length a"
  shows "fst (a' ! j) = fst (a ! j) + (\<Sum>k<length idx. if idx ! k = j then fst (vals ! k) else 0)"
    and "snd (a' ! j) = snd (a ! j) + (\<Sum>k<length idx. if idx ! k = j then snd (vals ! k) else 0)"
proof -
  have l: "length a' = length a" and lv: "length vals = length idx"
    using assms(1) add_at_length apply blast
    using assms(1) by (induction vadd a idx vals arbitrary: a' rule: add_at.induct) (auto split: if_splits)
  have "map fst a' ! j = map fst a ! j + (\<Sum>k<length idx. if idx ! k = j then map fst vals ! k else 0)"
    using add_at_nth[OF add_at_fst[OF assms(1)]] j by simp
  then show "fst (a' ! j) = fst (a ! j) + (\<Sum>k<length idx. if idx ! k = j then fst (vals ! k) else 0)"
    using j l lv by (simp cong: if_cong)
  have "map snd a' ! j = map snd a ! j + (\<Sum>k<length idx. if idx ! k = j then map snd vals ! k else 0)"
    using add_at_nth[OF add_at_snd[OF assms(1)]] j by simp
  then show "snd (a' ! j) = snd (a ! j) + (\<Sum>k<length idx. if idx ! k = j then snd (vals ! k) else 0)"
    using j l lv by (simp cong: if_cong)
qed

lemma grad_step_ok:
  assumes up: "update_values m = Inr m" and lg: "length grad = length (node_coords m)"
  shows "\<exists>grad'. grad_step m grad i = Inr grad' \<and> length grad' = length grad \<and>
     (\<forall>j<length grad.
        fst (grad' ! j) = fst (grad ! j) +
          (\<Sum>c<length (cells_nodes m). if slot (cells_nodes m ! c) i = j then fst (cell_pull m j c) else 0) \<and>
        snd (grad' ! j) = snd (grad ! j) +
          (\<Sum>c<length (cells_nodes m). if slot (cells_nodes m ! c) i = j then snd (cell_pull m j c) else 0))"
proof -
  let ?nc = "length (cells_nodes m)"
  let ?mcn = "column (cells_nodes m) i"
  note sh = update_values_shape[OF up]
  have rng: "\<forall>k\<in>set ?mcn. k < length (node_coords m)"
    using sh(1) by (auto simp: column_def list_all_iff slot_less)
  let ?xs = "map (\<lambda>k. node_coords m ! k) ?mcn"
  let ?d = "map2 vsub ?xs (cell_circumcenters m)"
  let ?vals = "map2 (\<lambda>p v. smul v p) ?d (cell_volumes m)"
  have t: "take_at (node_coords m) ?mcn = Inr ?xs" by (rule take_at_ok[OF rng])
  have s: "sub_rows ?xs (cell_circumcenters m) = Inr ?d"
    using sh(3) by (simp add: sub_rows_def column_def)
  have c: "scale_rows ?d (cell_volumes m) = Inr ?vals"
    using sh(2,3) by (simp add: scale_rows_def column_def)
  have gs: "grad_step m grad i = add_at vadd grad ?mcn ?vals"
    using t s c by (simp add: grad_step_def Let_def)
  have lv: "length ?vals = length ?mcn" using sh(2,3) by (simp add: column_def)
  have r2: "\<forall>k\<in>set ?mcn. k < length grad" using rng lg by simp
  obtain grad' where g': "add_at vadd grad ?mcn ?vals = Inr grad'"
    using add_at_ok[OF lv r2] by blast
  have vk: "\<And>k. k < ?nc \<Longrightarrow> ?vals ! k = cell_pull m (slot (cells_nodes m ! k) i) k"
    using sh(2,3) by (simp add: column_def cell_pull_def)
  have mk: "\<And>k. k < ?nc \<Longrightarrow> ?mcn ! k = slot (cells_nodes m ! k) i" by (simp add: column_def)
  have lm: "length ?mcn = ?nc" by (simp add: column_def)
  have "\<And>j. j < length grad \<Longrightarrow>
        fst (grad' ! j) = fst (grad ! j) +
          (\<Sum>c<?nc. if slot (cells_nodes m ! c) i = j then fst (cell_pull m j c) else 0) \<and>
        snd (grad' ! j) = snd (grad ! j) +
          (\<Sum>c<?nc. if slot (cells_nodes m ! c) i = j then snd (cell_pull m j c) else 0)"
  proof -
    fix j assume j: "j < length grad"
    have a: "(\<Sum>k<length ?mcn. if ?mcn ! k = j then fst (?vals ! k) else 0)
        = (\<Sum>c<?nc. if slot (cells_nodes m ! c) i = j then fst (cell_pull m j c) else 0)"
      unfolding lm by (rule sum.cong) (auto simp: vk mk)
    have b: "(\<Sum>k<length ?mcn. if ?mcn ! k = j then snd (?vals ! k) else 0)
        = (\<Sum>c<?nc. if slot (cells_nodes m ! c) i = j then snd (cell_pull m j c) else 0)"
      unfolding lm by (rule sum.cong) (auto simp: vk mk)
    show "fst (grad' ! j) = fst (grad ! j) +
          (\<Sum>c<?nc. if slot (cells_nodes m ! c) i = j then fst (cell_pull m j c) else 0) \<and>
        snd (grad' ! j) = snd (grad ! j) +
          (\<Sum>c<?nc. if slot (cells_nodes m ! c) i = j then snd (cell_pull m j c) else 0)"
      using add_at_vadd_nth[OF g' j] a b by simp
  qed
  then show ?thesis using gs g' add_at_length[OF g'] by auto
qed

lemma grad_loop_ok:
  assumes up: "update_values m = Inr m"
  shows "\<exists>grad. grad_loop m (replicate (length (node_coords m)) (0, 0)) [0, 1, 2] = Inr grad \<and>
     length grad = length (node_coords m) \<and>
     (\<forall>j<length (node_coords m).
        grad ! j =
          ((\<Sum>c<length (cells_nodes m). \<Sum>s<3.
              if slot (cells_nodes m ! c) s = j then fst (cell_pull m j c) else 0),
           (\<Sum>c<length (cells_nodes m). \<Sum>s<3.
              if slot (cells_nodes m ! c) s = j then snd (cell_pull m j c) else 0)))"
proof -
  let ?n = "length (node_coords m)"
  let ?a = "\<lambda>i j. (\<Sum>c<length (cells_nodes m). if slot (cells_nodes m ! c) i = j then fst (cell_pull m j c) else 0)"
  let ?b = "\<lambda>i j. (\<Sum>c<length (cells_nodes m). if slot (cells_nodes m ! c) i = j then snd (cell_pull m j c) else 0)"
  obtain g0 where g0: "grad_step m (replicate ?n (0, 0)) 0 = Inr g0" "length g0 = ?n"
      "\<forall>j<?n. fst (g0 ! j) = ?a 0 j \<and> snd (g0 ! j) = ?b 0 j"
    using grad_step_ok[OF up, of "replicate ?n (0, 0)" 0] by auto
  obtain g1 where g1: "grad_step m g0 1 = Inr g1" "length g1 = ?n"
      "\<forall>j<?n. fst (g1 ! j) = fst (g0 ! j) + ?a 1 j \<and> snd (g1 ! j) = snd (g0 ! j) + ?b 1 j"
    using grad_step_ok[OF up, of g0 1] g0(2) by auto
  obtain g2 where g2: "grad_step m g1 2 = Inr g2" "length g2 = ?n"
      "\<forall>j<?n. fst (g2 ! j) = fst (g1 ! j) + ?a 2 j \<and> snd (g2 ! j) = snd (g1 ! j) + ?b 2 j"
    using grad_step_ok[OF up, of g1 2] g1(2) by auto
  have three: "{..<3::nat} = {0, 1, 2}" by auto
  have "\<forall>j<?n. g2 ! j =
          ((\<Sum>c<length (cells_nodes m). \<Sum>s<3.
              if slot (cells_nodes m ! c) s = j then fst (cell_pull m j c) else 0),
           (\<Sum>c<length (cells_nodes m). \<Sum>s<3.
              if slot (cells_nodes m ! c) s = j then snd (cell_pull m j c) else 0))"
    using g0(3) g1(3) g2(3) by (auto intro!: prod_eqI simp: three sum.distrib)
  then show ?thesis using g0(1) g1(1) g2(1,2) by simp
qed

lemma interior_ids_upt:
  "length (is_interior_node m) = n \<Longrightarrow>
   interior_ids m = filter (\<lambda>i. is_interior_node m ! i) [0..<n]"
  by (simp add: interior_ids_def)

lemma gradient_ok:
  assumes up: "update_values m = Inr m"
    and lm: "length (is_interior_node m) = length (node_coords m)"
  shows "gradient m = Inr (gradient_spec m)"
proof -
  let ?n = "length (node_coords m)"
  obtain grad where g: "grad_loop m (replicate ?n (0, 0)) [0, 1, 2] = Inr grad"
      "length grad = ?n"
      "\<forall>j<?n. grad ! j =
          ((\<Sum>c<length (cells_nodes m). \<Sum>s<3.
              if slot (cells_nodes m ! c) s = j then fst (cell_pull m j c) else 0),
           (\<Sum>c<length (cells_nodes m). \<Sum>s<3.
              if slot (cells_nodes m ! c) s = j then snd (cell_pull m j c) else 0))"
    using grad_loop_ok[OF up] by blast
  let ?g' = "map (smul (2 / real ((2::nat) + 1))) grad"
  have l: "length (is_interior_node m) = length ?g'" using lm g(2) by simp
  have ids: "\<forall>i\<in>set (interior_ids m). i < ?n"
    using lm by (auto simp: interior_ids_def)
  have "map (\<lambda>i. ?g' ! i) (interior_ids m) = map (node_gradient_spec m) (interior_ids m)"
    using ids g(2,3) by (auto simp: node_gradient_spec_def)
  then have "select (is_interior_node m) ?g' = Inr (map (node_gradient_spec m) (interior_ids m))"
    using select_nth[OF l] interior_ids_upt[OF lm] g(2) by simp
  then show ?thesis
    using g(1) by (simp add: gradient_def gradient_spec_def Let_def)
qed

text \<open>
  C3. The gradient function \<open>jac\<close> of the optimizer writes \<open>x\<close> to the interior nodes and
  recomputes the geometry; on the mesh so reached it returns what section 4.1 describes:
  every cell adds \<open>(node_coord - cell_circumcenter) * cell_volume\<close> to each of its three
  nodes, the sums are scaled by \<open>2 / (d + 1)\<close> with \<open>d = 2\<close>, and the rows of the interior
  nodes, in the order in which \<open>mesh.is_interior_node\<close> selects them, are flattened.
\<close>

theorem jac_is_gradient_spec:
  "jac x st =
     (case refresh x st of
        Inl err \<Rightarrow> Inl err
      | Inr (u, st') \<Rightarrow> Inr (gradient_spec (the_mesh st'), st'))"
proof (cases "refresh x st")
  case (Inl err)
  then show ?thesis by (simp add: jac_def)
next
  case (Inr r)
  obtain u st' where r: "r = (u, st')" by (cases r) auto
  have "gradient (the_mesh st') = Inr (gradient_spec (the_mesh st'))"
    using refresh_frame(7,8)[of x st u st'] Inr r gradient_ok by simp
  then show ?thesis using Inr r by (simp add: jac_def)
qed


section \<open>The fixed-point relocators\<close>

lemma edges_cells_1_iff:
  "c \<in> set (edges_cells_1 cs) \<longleftrightarrow> c < length cs \<and> touches_boundary cs c"
  by (auto simp: edges_cells_1_def touches_boundary_def list_ex_iff filter_empty_conv)

lemma substitute_boundary_ok:
  assumes wf: "well_formed m"
  shows "substitute_boundary m = Inr (m\<lparr> cell_circumcenters := target_points m \<rparr>)"
proof -
  let ?ids = "boundary_cell_ids m"
  note sh = well_formed_shape[OF wf]
  have ids: "boundary_cell_ids m = edges_cells_1 (cells_nodes m)"
    using wf by (simp add: well_formed_def)
  have r1: "\<forall>i\<in>set ?ids. i < length (cell_barycenters m)" using sh(4,6) by simp
  have r2: "\<forall>i\<in>set ?ids. i < length (cell_circumcenters m)" using sh(3,6) by simp
  have l: "length (cell_barycenters m) = length (cell_circumcenters m)" using sh(3,4) by simp
  have t: "take_at (cell_barycenters m) ?ids = Inr (map (\<lambda>i. cell_barycenters m ! i) ?ids)"
    by (rule take_at_ok[OF r1])
  obtain cc' where cc': "put_at (cell_circumcenters m) ?ids (map (\<lambda>i. cell_barycenters m ! i) ?ids) = Inr cc'"
      "length cc' = length (cell_circumcenters m)"
      "\<forall>c<length (cell_circumcenters m).
         cc' ! c = (if c \<in> set ?ids then cell_barycenters m ! c else cell_circumcenters m ! c)"
    using put_at_same[OF r2 l] by blast
  have "cc' = target_points m"
  proof (rule nth_equalityI)
    show "length cc' = length (target_points m)"
      using cc'(2) sh(3) by (simp add: target_points_def)
  next
    fix c assume "c < length cc'"
    then have c: "c < length (cells_nodes m)" using cc'(2) sh(3) by simp
    then show "cc' ! c = target_points m ! c"
      using cc'(3) sh(3) by (simp add: target_points_def ids edges_cells_1_iff)
  qed
  then show ?thesis using t cc'(1) by (simp add: substitute_boundary_def Let_def)
qed

lemma volume_averaged_frame:
  "get_new_points_volume_averaged (m\<lparr> cell_circumcenters := cc \<rparr>) r = get_new_points_volume_averaged m r"
  by (simp add: get_new_points_volume_averaged_def star_def interior_ids_def)

lemma count_averaged_frame:
  "get_new_points_count_averaged (m\<lparr> cell_circumcenters := cc \<rparr>) r = get_new_points_count_averaged m r"
  by (simp add: get_new_points_count_averaged_def star_def interior_ids_def)

lemma get_new_points_uniform_ok:
  assumes "well_formed m"
  shows "fixed_point_uniform_get_new_points m =
     Inr (get_new_points_volume_averaged m (target_points m), m\<lparr> cell_circumcenters := target_points m \<rparr>)"
  by (simp add: fixed_point_uniform_get_new_points_def substitute_boundary_ok[OF assms]
      volume_averaged_frame)

lemma get_new_points_density_ok:
  assumes "well_formed m"
  shows "fixed_point_density_preserving_get_new_points m =
     Inr (get_new_points_count_averaged m (target_points m), m\<lparr> cell_circumcenters := target_points m \<rparr>)"
  by (simp add: fixed_point_density_preserving_get_new_points_def substitute_boundary_ok[OF assms]
      count_averaged_frame)

lemma MeshTri_pentagon: "MeshTri pentagon_points pentagon_cells = Inr pentagon_mesh"
  by (simp add: mesh_eval_defs eval_defs pentagon_points_def pentagon_cells_def pentagon_mesh_def)

lemma MeshTri_unit_triangle: "MeshTri [(0, 0), (1, 0), (0, 1)] [(0, 1, 2)] = Inr unit_triangle"
  by (simp add: mesh_eval_defs eval_defs unit_triangle_def)

lemma well_formed_pentagon: "well_formed pentagon_mesh"
  using MeshTri_pentagon by (rule MeshTri_well_formed)

lemma target_points_pentagon:
  "target_points pentagon_mesh = [(-1/6, 1/2), (1/6, 1/2), (7/6, 11/6), (0, 8/3), (-7/6, 11/6)]"
  by (simp add: target_points_def touches_boundary_def pentagon_mesh_def pentagon_cells_def
      num_adjacent_def cell_edges_def edge_def upt_rec)

lemma averaged_pentagon:
  "get_new_points_volume_averaged pentagon_mesh (target_points pentagon_mesh) = [(0, 215/114)]"
  "get_new_points_count_averaged pentagon_mesh (target_points pentagon_mesh) = [(0, 22/15)]"
  unfolding target_points_pentagon
  by (simp_all add: get_new_points_volume_averaged_def get_new_points_count_averaged_def
      star_def interior_ids_def vsum_def smul_def pentagon_mesh_def pentagon_cells_def upt_rec)

text \<open>
  C4. In both fixed-point variants \<open>get_new_points\<close> builds the array of target points
  from the circumcenters, the entry of every cell with a boundary edge (an edge with
  exactly one incident cell) replaced by the cell's barycenter; \<open>fixed_point_uniform\<close>
  hands it to the volume-weighted averaging helper, \<open>fixed_point_density_preserving\<close>
  to the count-averaging helper.
\<close>

theorem get_new_points_targets:
  assumes "well_formed m"
  shows "map_sum id fst (fixed_point_uniform_get_new_points m) =
           Inr (get_new_points_volume_averaged m (target_points m)) \<and>
         map_sum id fst (fixed_point_density_preserving_get_new_points m) =
           Inr (get_new_points_count_averaged m (target_points m))"
  by (simp add: get_new_points_uniform_ok[OF assms] get_new_points_density_ok[OF assms])

theorem get_new_points_targets_witness:
  "well_formed pentagon_mesh \<and>
   target_points pentagon_mesh = [(-1/6, 1/2), (1/6, 1/2), (7/6, 11/6), (0, 8/3), (-7/6, 11/6)] \<and>
   map_sum id fst (fixed_point_uniform_get_new_points pentagon_mesh) = Inr [(0, 215/114)] \<and>
   map_sum id fst (fixed_point_density_preserving_get_new_points pentagon_mesh) = Inr [(0, 22/15)]"
proof -
  note t = get_new_points_targets[OF well_formed_pentagon, unfolded averaged_pentagon]
  show ?thesis using t well_formed_pentagon target_points_pentagon by simp
qed

text \<open>
  C7, as the claim states it, fails: \<open>get_new_points\<close> does not leave the mesh unchanged.
  On the right triangle with corners \<open>(0,0)\<close>, \<open>(1,0)\<close>, \<open>(0,1)\<close> the mesh holds the
  circumcenter \<open>(1/2, 1/2)\<close> before the call and the barycenter \<open>(1/3, 1/3)\<close> in its
  place after it, in either variant.
\<close>

theorem get_new_points_pure_counterexample:
  "MeshTri [(0, 0), (1, 0), (0, 1)] [(0, 1, 2)] = Inr unit_triangle \<and>
   cell_circumcenters unit_triangle = [(1/2, 1/2)] \<and>
   cell_circumcenters unit_triangle \<noteq> [(1/3, 1/3)] \<and>
   map_sum id (\<lambda>r. cell_circumcenters (snd r)) (fixed_point_uniform_get_new_points unit_triangle)
     = Inr [(1/3, 1/3)] \<and>
   map_sum id (\<lambda>r. cell_circumcenters (snd r))
     (fixed_point_density_preserving_get_new_points unit_triangle) = Inr [(1/3, 1/3)]"
proof (intro conjI)
  show "MeshTri [(0, 0), (1, 0), (0, 1)] [(0, 1, 2)] = Inr unit_triangle"
    by (rule MeshTri_unit_triangle)
  show "cell_circumcenters unit_triangle = [(1/2, 1/2)]"
    by (simp add: unit_triangle_def)
  show "cell_circumcenters unit_triangle \<noteq> [(1/3, 1/3)]"
    by (simp add: unit_triangle_def)
  have s: "substitute_boundary unit_triangle =
      Inr (unit_triangle\<lparr> cell_circumcenters := [(1/3, 1/3)] \<rparr>)"
    by (simp add: substitute_boundary_def unit_triangle_def Let_def)
  show "map_sum id (\<lambda>r. cell_circumcenters (snd r))
      (fixed_point_uniform_get_new_points unit_triangle) = Inr [(1/3, 1/3)]"
    by (simp add: fixed_point_uniform_get_new_points_def s)
  show "map_sum id (\<lambda>r. cell_circumcenters (snd r))
      (fixed_point_density_preserving_get_new_points unit_triangle) = Inr [(1/3, 1/3)]"
    by (simp add: fixed_point_density_preserving_get_new_points_def s)
qed

text \<open>
  C7, amended. \<open>get_new_points\<close>, in either variant, leaves the node coordinates, the
  cells, the interior flags, the cell volumes, the barycenters and the boundary cell
  indices of the mesh as they are, and the circumcenter of every cell without a boundary
  edge; in the circumcenter array of the mesh it overwrites the entry of every cell with
  a boundary edge with the barycenter of that cell.
\<close>

theorem get_new_points_frame:
  assumes "well_formed m"
  shows "map_sum id snd (fixed_point_uniform_get_new_points m) =
           Inr (m\<lparr> cell_circumcenters := target_points m \<rparr>) \<and>
         map_sum id snd (fixed_point_density_preserving_get_new_points m) =
           Inr (m\<lparr> cell_circumcenters := target_points m \<rparr>)"
  by (simp add: get_new_points_uniform_ok[OF assms] get_new_points_density_ok[OF assms])

theorem get_new_points_frame_witness:
  "well_formed pentagon_mesh \<and>
   map_sum id snd (fixed_point_uniform_get_new_points pentagon_mesh) =
     Inr (pentagon_mesh\<lparr> cell_circumcenters := cell_barycenters pentagon_mesh \<rparr>) \<and>
   map_sum id snd (fixed_point_density_preserving_get_new_points pentagon_mesh) =
     Inr (pentagon_mesh\<lparr> cell_circumcenters := cell_barycenters pentagon_mesh \<rparr>)"
proof -
  have "target_points pentagon_mesh = cell_barycenters pentagon_mesh"
    unfolding target_points_pentagon by (simp add: pentagon_mesh_def)
  then show ?thesis
    using get_new_points_frame[OF well_formed_pentagon] well_formed_pentagon by simp
qed


section \<open>The frame of the optimizer and of the relocators\<close>

lemma flip_reference_contract: "flip_contract flip_reference"
  by (auto simp: flip_contract_def flip_reference_def Let_def split: sum.splits
      dest: update_values_frame)

lemma refresh_anchored:
  assumes "refresh x st = Inr (u, st')" and "anchored X msk (the_mesh st)"
  shows "anchored X msk (the_mesh st')"
  using refresh_frame[OF assms(1)] assms(2) by (auto simp: anchored_def)

lemma f_refresh: "f x st = Inr (v, st') \<Longrightarrow> refresh x st = Inr ((), st')"
  by (auto simp: f_def split: sum.splits)

lemma jac_refresh: "jac x st = Inr (g, st') \<Longrightarrow> refresh x st = Inr ((), st')"
  by (auto simp: jac_def split: sum.splits)

lemma anchored_flip:
  "flip_contract flip \<Longrightarrow> anchored X msk m \<Longrightarrow> anchored X msk (flip m)"
  by (simp add: flip_contract_def anchored_def)

lemma anchored_emit [simp]: "the_mesh (emit ev st) = the_mesh st"
  by (simp add: emit_def)

lemma flip_delaunay_anchored:
  assumes "flip_delaunay flip verbose save_steps has_callback x st = Inr (u, st')"
    and fc: "flip_contract flip" and a: "anchored X msk (the_mesh st)"
  shows "anchored X msk (the_mesh st')"
proof -
  obtain st1 where r: "refresh x (st\<lparr> step := step st + 1 \<rparr>) = Inr ((), st1)"
    using assms(1) by (auto simp: flip_delaunay_def split: sum.splits)
  have a1: "anchored X msk (the_mesh st1)"
    using refresh_anchored[OF r] a by simp
  let ?st2 = "st1\<lparr> the_mesh := flip (the_mesh st1) \<rparr>"
  let ?st3 = "if save_steps then emit (Saved (step ?st2)) ?st2 else ?st2"
  have a3: "anchored X msk (the_mesh ?st3)"
    using anchored_flip[OF fc a1] by simp
  show ?thesis
  proof (cases verbose)
    case False
    then have "st' = (if has_callback then emit (Called (step ?st3) (the_mesh ?st3)) ?st3 else ?st3)"
      using assms(1) r by (simp add: flip_delaunay_def Let_def)
    then show ?thesis using a3 by simp
  next
    case True
    then obtain v st4 where f4: "f x ?st3 = Inr (v, st4)"
      and st': "st' = (if has_callback
          then emit (Called (step (emit (Stats_step (step st4) v) st4))
                      (the_mesh (emit (Stats_step (step st4) v) st4)))
                 (emit (Stats_step (step st4) v) st4)
          else emit (Stats_step (step st4) v) st4)"
      using assms(1) r by (auto simp: flip_delaunay_def Let_def split: sum.splits)
    have "anchored X msk (the_mesh st4)"
      using refresh_anchored[OF f_refresh[OF f4] a3] .
    then show ?thesis using st' by simp
  qed
qed

lemma run_minimizer_anchored:
  assumes fc: "flip_contract flip"
  shows "run_minimizer flip verbose save_steps has_callback t st = Inr (out, st') \<Longrightarrow>
    anchored X msk (the_mesh st) \<Longrightarrow> anchored X msk (the_mesh st')"
proof (induction t arbitrary: st)
  case (Done x s n)
  then show ?case by simp
next
  case (Eval_f x k)
  then obtain v st1 where f1: "f x st = Inr (v, st1)"
    and r: "run_minimizer flip verbose save_steps has_callback (k v) st1 = Inr (out, st')"
    by (auto split: sum.splits)
  show ?case
    using Eval_f.IH[OF _ r] refresh_anchored[OF f_refresh[OF f1] Eval_f.prems(2)] by blast
next
  case (Eval_jac x k)
  then obtain g st1 where j1: "jac x st = Inr (g, st1)"
    and r: "run_minimizer flip verbose save_steps has_callback (k g) st1 = Inr (out, st')"
    by (auto split: sum.splits)
  show ?case
    using Eval_jac.IH[OF _ r] refresh_anchored[OF jac_refresh[OF j1] Eval_jac.prems(2)] by blast
next
  case (Accept x t)
  then obtain u st1 where d1: "flip_delaunay flip verbose save_steps has_callback x st = Inr (u, st1)"
    and r: "run_minimizer flip verbose save_steps has_callback t st1 = Inr (out, st')"
    by (auto split: sum.splits)
  show ?case
    using Accept.IH[OF r] flip_delaunay_anchored[OF d1 fc Accept.prems(2)] by blast
qed

lemma MeshTri_anchored:
  assumes "MeshTri X cells = Inr m"
  shows "anchored X (interior_nodes (length X) cells) m"
  using MeshTri_fields[OF assms] by (simp add: anchored_def)

lemma optimizing_anchored:
  assumes fc: "flip_contract flip"
    and o: "optimizing flip minimize X cells tol max_num_steps verbose save_steps has_callback
      = Inr (out, st)"
  shows "anchored X (interior_nodes (length X) cells) (the_mesh st)"
proof -
  obtain m e0 xi where m: "MeshTri X cells = Inr m" and e0: "energy_default m = Inr e0"
    and xi: "select (is_interior_node m) X = Inr xi"
    using o by (auto simp: optimizing_def Let_def split: sum.splits)
  let ?st0 = "\<lparr> the_mesh = m, step = 0, trace = [] \<rparr>"
  let ?st1 = "if save_steps then emit (Saved 0) ?st0 else ?st0"
  let ?st2 = "emit (Stats_before e0) ?st1"
  let ?st3 = "if has_callback then emit (Called 0 (the_mesh ?st2)) ?st2 else ?st2"
  have r: "run_minimizer flip verbose save_steps has_callback
      (minimize (flatten xi) tol max_num_steps) ?st3 = Inr (out, st)"
    using o m e0 xi by (simp add: optimizing_def Let_def)
  have "anchored X (interior_nodes (length X) cells) (the_mesh ?st3)"
    using MeshTri_anchored[OF m] by simp
  then show ?thesis using run_minimizer_anchored[OF fc r] by blast
qed

lemma nonlinear_anchored:
  assumes fc: "flip_contract flip"
    and n: "nonlinear_optimization_uniform flip minimize X cells tol max_num_steps verbose
      save_steps has_callback = Inr ((pts, cs), st)"
  shows "anchored X (interior_nodes (length X) cells) (the_mesh st)"
    and "pts = node_coords (the_mesh st)" and "cs = cells_nodes (the_mesh st)"
proof -
  obtain out_x out_success out_nit st4 st5 e1 where
    o: "optimizing flip minimize X cells tol max_num_steps verbose save_steps has_callback
      = Inr ((out_x, out_success, out_nit), st4)"
    and r: "refresh out_x st4 = Inr ((), st5)"
    and e1: "energy_default (flip (the_mesh st5)) = Inr e1"
    and res: "pts = node_coords (flip (the_mesh st5))" "cs = cells_nodes (flip (the_mesh st5))"
      "st = emit (Stats_final out_nit e1) (st5\<lparr> the_mesh := flip (the_mesh st5) \<rparr>)"
    using n by (auto simp: nonlinear_optimization_uniform_def Let_def split: sum.splits)
  have "anchored X (interior_nodes (length X) cells) (the_mesh st5)"
    using refresh_anchored[OF r optimizing_anchored[OF fc o]] .
  then show "anchored X (interior_nodes (length X) cells) (the_mesh st)"
    using anchored_flip[OF fc] res(3) by simp
  show "pts = node_coords (the_mesh st)" "cs = cells_nodes (the_mesh st)"
    using res by simp_all
qed

lemma substitute_boundary_frame:
  "substitute_boundary m = Inr m' \<Longrightarrow>
   node_coords m' = node_coords m \<and> is_interior_node m' = is_interior_node m \<and>
   cells_nodes m' = cells_nodes m"
  by (auto simp: substitute_boundary_def Let_def split: sum.splits)

lemma runner_steps_anchored:
  assumes g0: "\<forall>m r m'. get_new_points m = Inr (r, m') \<longrightarrow>
      node_coords m' = node_coords m \<and> is_interior_node m' = is_interior_node m
      \<and> cells_nodes m' = cells_nodes m"
  shows "runner_steps get_new_points damp converged tol k m = Inr m' \<Longrightarrow>
    anchored X msk m \<Longrightarrow> anchored X msk m' \<and> cells_nodes m' = cells_nodes m"
proof (induction k arbitrary: m)
  case 0
  then show ?case by simp
next
  case (Suc k)
  have g: "\<And>m r m'. get_new_points m = Inr (r, m') \<Longrightarrow>
      node_coords m' = node_coords m \<and> is_interior_node m' = is_interior_node m
      \<and> cells_nodes m' = cells_nodes m"
    using g0 by blast
  from Suc.prems(1) obtain new_points m1 xnew m2 where
    gn: "get_new_points m = Inr (new_points, m1)"
    and sm: "set_masked (is_interior_node m1) (node_coords m1) (damp m1 new_points) = Inr xnew"
    and up: "update_values (m1\<lparr> node_coords := xnew \<rparr>) = Inr m2"
    and rest: "(if converged tol m1 m2 then Inr m2
        else runner_steps get_new_points damp converged tol k m2) = Inr m'"
    by (auto split: sum.splits)
  have a1: "anchored X msk m1" using g[OF gn] Suc.prems(2) by (simp add: anchored_def)
  have a2: "anchored X msk m2"
    using a1 update_values_frame[OF up] set_masked_length[OF sm] set_masked_frame[OF sm]
    by (auto simp: anchored_def)
  have c2: "cells_nodes m2 = cells_nodes m"
    using update_values_frame[OF up] g[OF gn] by simp
  show ?case
  proof (cases "converged tol m1 m2")
    case True
    then show ?thesis using rest a2 c2 by simp
  next
    case False
    then have "runner_steps get_new_points damp converged tol k m2 = Inr m'"
      using rest by simp
    then show ?thesis using Suc.IH[OF _ a2] c2 by simp
  qed
qed

lemma uniform_get_new_points_frame:
  "fixed_point_uniform_get_new_points m = Inr (r, m') \<Longrightarrow>
      node_coords m' = node_coords m \<and> is_interior_node m' = is_interior_node m
      \<and> cells_nodes m' = cells_nodes m"
  by (auto simp: fixed_point_uniform_get_new_points_def split: sum.splits
      dest: substitute_boundary_frame)

lemma density_get_new_points_frame:
  "fixed_point_density_preserving_get_new_points m = Inr (r, m') \<Longrightarrow>
      node_coords m' = node_coords m \<and> is_interior_node m' = is_interior_node m
      \<and> cells_nodes m' = cells_nodes m"
  by (auto simp: fixed_point_density_preserving_get_new_points_def split: sum.splits
      dest: substitute_boundary_frame)

lemma fixed_point_uniform_anchored:
  assumes "fixed_point_uniform damp converged X cells tol max_num_steps = Inr (pts, cs)"
  shows "same_boundary X cells pts" and "cs = cells"
proof -
  obtain m m' where m: "MeshTri X cells = Inr m"
    and r: "runner_steps fixed_point_uniform_get_new_points damp converged tol
        (nat max_num_steps) m = Inr m'"
    and res: "pts = node_coords m'" "cs = cells_nodes m'"
    using assms by (auto simp: fixed_point_uniform_def runner_def split: sum.splits)
  have "anchored X (interior_nodes (length X) cells) m' \<and> cells_nodes m' = cells_nodes m"
  proof -
    have g: "\<forall>m r m'. fixed_point_uniform_get_new_points m = Inr (r, m') \<longrightarrow>
      node_coords m' = node_coords m \<and> is_interior_node m' = is_interior_node m
      \<and> cells_nodes m' = cells_nodes m"
      using uniform_get_new_points_frame by blast
    show ?thesis by (rule runner_steps_anchored[OF g r MeshTri_anchored[OF m]])
  qed
  then show "same_boundary X cells pts" "cs = cells"
    using res MeshTri_fields[OF m] by (auto simp: anchored_def same_boundary_def)
qed

lemma fixed_point_density_anchored:
  assumes "fixed_point_density_preserving damp converged X cells tol max_num_steps = Inr (pts, cs)"
  shows "same_boundary X cells pts" and "cs = cells"
proof -
  obtain m m' where m: "MeshTri X cells = Inr m"
    and r: "runner_steps fixed_point_density_preserving_get_new_points damp converged tol
        (nat max_num_steps) m = Inr m'"
    and res: "pts = node_coords m'" "cs = cells_nodes m'"
    using assms by (auto simp: fixed_point_density_preserving_def runner_def split: sum.splits)
  have "anchored X (interior_nodes (length X) cells) m' \<and> cells_nodes m' = cells_nodes m"
  proof -
    have g: "\<forall>m r m'. fixed_point_density_preserving_get_new_points m = Inr (r, m') \<longrightarrow>
      node_coords m' = node_coords m \<and> is_interior_node m' = is_interior_node m
      \<and> cells_nodes m' = cells_nodes m"
      using density_get_new_points_frame by blast
    show ?thesis by (rule runner_steps_anchored[OF g r MeshTri_anchored[OF m]])
  qed
  then show "same_boundary X cells pts" "cs = cells"
    using res MeshTri_fields[OF m] by (auto simp: anchored_def same_boundary_def)
qed

text \<open>
  C6. In every run of the optimizer and of the two relocators, whatever the number of
  iterations, the coordinates of the boundary nodes are in the output what they are in
  the input: every write of coordinates goes through the mask \<open>mesh.is_interior_node\<close>,
  and the mask does not change during the run.
\<close>

theorem boundary_nodes_unchanged:
  assumes "flip_contract flip"
  shows "(\<forall>pts cs st. nonlinear_optimization_uniform flip minimize X cells tol max_num_steps
            verbose save_steps has_callback = Inr ((pts, cs), st) \<longrightarrow> same_boundary X cells pts) \<and>
         (\<forall>pts cs. fixed_point_uniform damp converged X cells tol max_num_steps = Inr (pts, cs)
            \<longrightarrow> same_boundary X cells pts) \<and>
         (\<forall>pts cs. fixed_point_density_preserving damp converged X cells tol max_num_steps
            = Inr (pts, cs) \<longrightarrow> same_boundary X cells pts)"
proof (intro conjI allI impI)
  fix pts cs st
  assume "nonlinear_optimization_uniform flip minimize X cells tol max_num_steps
            verbose save_steps has_callback = Inr ((pts, cs), st)"
  from nonlinear_anchored[OF assms this]
  show "same_boundary X cells pts" by (simp add: anchored_def same_boundary_def)
next
  fix pts cs
  assume "fixed_point_uniform damp converged X cells tol max_num_steps = Inr (pts, cs)"
  then show "same_boundary X cells pts" by (rule fixed_point_uniform_anchored)
next
  fix pts cs
  assume "fixed_point_density_preserving damp converged X cells tol max_num_steps = Inr (pts, cs)"
  then show "same_boundary X cells pts" by (rule fixed_point_density_anchored)
qed


section \<open>A run without steps\<close>

lemma energy_returns:
  assumes "valid_mesh m"
  shows "\<exists>r. energy m ud = Inr r"
proof -
  have rng: "list_all (cell_in_range (length (node_coords m))) (cells_nodes m)"
    and len: "length (cell_volumes m) = length (cells_nodes m)"
    using assms by (simp_all add: valid_mesh_def)
  have nz: "0 \<notin> set (cell_volumes m)"
  proof
    assume "0 \<in> set (cell_volumes m)"
    then obtain c where c: "c < length (cell_volumes m)" "cell_volumes m ! c = 0"
      by (auto simp: in_set_conv_nth)
    have "0 < cell_volumes m ! c"
      using valid_mesh_volume[OF assms, of c] c(1) len by linarith
    then show False using c(2) by simp
  qed
  show ?thesis
    using energy_unfold[OF len rng, of ud] nz energy_gap_nonneg[OF assms, of ud]
    by (simp add: I_code_spec)
qed

lemma refresh_same:
  assumes wf: "well_formed m" and sel: "select (is_interior_node m) (node_coords m) = Inr xi"
    and st: "the_mesh st = m"
  shows "refresh (flatten xi) st = Inr ((), st)"
proof -
  have w: "write_interior (flatten xi) m = Inr m"
    using set_masked_selected[OF sel] by (simp add: write_interior_def reshape2_flatten)
  have u: "update_values m = Inr m" using wf by (simp add: well_formed_def)
  show ?thesis using w u st by (simp add: refresh_def)
qed

lemma run_idle:
  assumes wf: "well_formed m" and v: "valid_mesh m"
    and sel: "select (is_interior_node m) (node_coords m) = Inr xi"
    and st: "the_mesh st = m"
  shows "idle_at (flatten xi) t \<Longrightarrow>
    \<exists>s n. run_minimizer flip verbose save_steps has_callback t st = Inr ((flatten xi, s, n), st)"
proof (induction t)
  case (Done x s n)
  then show ?case by simp
next
  case (Eval_f x k)
  obtain r where r: "energy m True = Inr r" using energy_returns[OF v] by blast
  have "f x st = Inr (r, st)"
    using Eval_f.prems refresh_same[OF wf sel st] r st by (simp add: f_def)
  then show ?case using Eval_f.IH[of "k r"] Eval_f.prems by simp
next
  case (Eval_jac x k)
  have "jac x st = Inr (gradient_spec m, st)"
    using Eval_jac.prems refresh_same[OF wf sel st] st wf gradient_ok[of m]
    by (simp add: jac_def well_formed_def)
  then show ?case using Eval_jac.IH[of "k (gradient_spec m)"] Eval_jac.prems by simp
next
  case (Accept x t)
  then show ?case by simp
qed

lemma nonlinear_idle:
  assumes m0: "MeshTri X cells = Inr m0" and v0: "valid_mesh m0"
    and fc: "flip_contract flip" and vf: "valid_mesh (flip m0)"
    and sel: "select (is_interior_node m0) X = Inr xi"
    and idle: "idle_at (flatten xi) (minimize (flatten xi) tol 0)"
  shows "result_of (nonlinear_optimization_uniform flip minimize X cells tol 0 verbose
           save_steps has_callback) = Inr (X, cells_nodes (flip m0))"
proof -
  note fields = MeshTri_fields[OF m0]
  have wf: "well_formed m0" by (rule MeshTri_well_formed[OF m0])
  have sel': "select (is_interior_node m0) (node_coords m0) = Inr xi"
    using sel fields(1) by simp
  obtain e0 where e0: "energy_default m0 = Inr e0"
    using energy_returns[OF v0] by (auto simp: energy_default_def)
  obtain e1 where e1: "energy_default (flip m0) = Inr e1"
    using energy_returns[OF vf] by (auto simp: energy_default_def)
  let ?st0 = "\<lparr> the_mesh = m0, step = 0, trace = [] \<rparr>"
  let ?st1 = "if save_steps then emit (Saved 0) ?st0 else ?st0"
  let ?st2 = "emit (Stats_before e0) ?st1"
  let ?st3 = "if has_callback then emit (Called 0 (the_mesh ?st2)) ?st2 else ?st2"
  have m3: "the_mesh ?st3 = m0" by simp
  obtain s n where run: "run_minimizer flip verbose save_steps has_callback
      (minimize (flatten xi) tol 0) ?st3 = Inr ((flatten xi, s, n), ?st3)"
    using run_idle[OF wf v0 sel' m3 idle] by blast
  have o: "optimizing flip minimize X cells tol 0 verbose save_steps has_callback
      = Inr ((flatten xi, s, n), ?st3)"
    using m0 e0 sel run by (simp add: optimizing_def Let_def)
  have r: "refresh (flatten xi) ?st3 = Inr ((), ?st3)"
    by (rule refresh_same[OF wf sel' m3])
  have nc: "node_coords (flip m0) = X"
    using fc fields(1) by (simp add: flip_contract_def)
  show ?thesis
    unfolding nonlinear_optimization_uniform_def o
    using r e1 nc m3 by (simp add: Let_def result_of_def)
qed

lemma fixed_point_zero:
  assumes "MeshTri X cells = Inr m0"
  shows "fixed_point_uniform damp converged X cells tol 0 = Inr (X, cells)"
    and "fixed_point_density_preserving damp converged X cells tol 0 = Inr (X, cells)"
  using assms MeshTri_fields[OF assms]
  by (simp_all add: fixed_point_uniform_def fixed_point_density_preserving_def runner_def)

lemma valid_pentagon: "valid_mesh pentagon_mesh"
  by (simp add: valid_mesh_def pentagon_mesh_def pentagon_cells_def pentagon_points_def
      cell_in_range_def cell_distinct_def cell_points_def tri_area_def upt_rec)

lemma valid_pentagon_flipped: "valid_mesh pentagon_flipped"
  by (simp add: valid_mesh_def pentagon_flipped_def pentagon_points_def
      cell_in_range_def cell_distinct_def cell_points_def tri_area_def upt_rec)

lemma flip_once_pentagon:
  "flip_once pentagon_points pentagon_cells =
     Some [(4, 0, 1), (1, 5, 4), (1, 2, 5), (2, 3, 5), (3, 4, 5)]"
  by (simp add: flip_once_def flip_pair_def rotations_def cot_at_def vsub_def
      pentagon_points_def pentagon_cells_def upt_rec)

lemma flip_once_pentagon_flipped:
  "flip_once pentagon_points [(4, 0, 1), (1, 5, 4), (1, 2, 5), (2, 3, 5), (3, 4, 5)] = None"
  by (simp add: flip_once_def flip_pair_def rotations_def cot_at_def vsub_def
      pentagon_points_def upt_rec)

lemma flip_loop_pentagon:
  "flip_loop pentagon_points (Suc (Suc k)) pentagon_cells =
     [(4, 0, 1), (1, 5, 4), (1, 2, 5), (2, 3, 5), (3, 4, 5)]"
  by (simp only: flip_loop.simps flip_once_pentagon flip_once_pentagon_flipped option.case)

lemma flip_reference_pentagon: "flip_reference pentagon_mesh = pentagon_flipped"
proof -
  have n: "length (cells_nodes pentagon_mesh) * length (cells_nodes pentagon_mesh) = Suc (Suc 23)"
    by (simp add: pentagon_mesh_def pentagon_cells_def)
  have l: "flip_loop (node_coords pentagon_mesh) (Suc (Suc 23)) (cells_nodes pentagon_mesh) =
      [(4, 0, 1), (1, 5, 4), (1, 2, 5), (2, 3, 5), (3, 4, 5)]"
    using flip_loop_pentagon[of 23] by (simp add: pentagon_mesh_def)
  show ?thesis
    unfolding flip_reference_def n l Let_def
    by (simp add: pentagon_mesh_def pentagon_flipped_def pentagon_points_def mesh_eval_defs
        eval_defs upt_rec)
qed

lemma select_pentagon:
  "select (is_interior_node pentagon_mesh) pentagon_points = Inr [(0, 2)]"
  by (simp add: select_def pentagon_mesh_def pentagon_points_def)

text \<open>
  C5, as the claim states it, fails for \<open>nonlinear_optimization_uniform\<close>: the last edge
  flip runs also when no step was taken. On the pentagon, whose edge from node 5 to node 0
  is not Delaunay, a run with \<open>max_num_steps = 0\<close> returns the input points and other
  cells than the input's.
\<close>

theorem max_num_steps_zero_counterexample:
  "result_of (nonlinear_optimization_uniform flip_reference (steepest_descent (1/100))
     pentagon_points pentagon_cells 0 0 False False False)
     = Inr (pentagon_points, [(4, 0, 1), (1, 5, 4), (1, 2, 5), (2, 3, 5), (3, 4, 5)]) \<and>
   [(4, 0, 1), (1, 5, 4), (1, 2, 5), (2, 3, 5), (3, 4, 5)] \<noteq> pentagon_cells"
proof -
  have idle: "idle_at (flatten [(0, 2)]) (steepest_descent (1/100) (flatten [(0, 2)]) 0 0)"
    by (simp add: steepest_descent_def)
  have vf: "valid_mesh (flip_reference pentagon_mesh)"
    by (simp add: flip_reference_pentagon valid_pentagon_flipped)
  have "result_of (nonlinear_optimization_uniform flip_reference (steepest_descent (1/100))
     pentagon_points pentagon_cells 0 0 False False False)
     = Inr (pentagon_points, cells_nodes (flip_reference pentagon_mesh))"
    by (rule nonlinear_idle[where minimize = "steepest_descent (1/100)" and tol = 0,
          OF MeshTri_pentagon valid_pentagon flip_reference_contract vf select_pentagon idle])
  then show ?thesis
    by (simp add: flip_reference_pentagon pentagon_flipped_def pentagon_cells_def)
qed

text \<open>
  C5, amended. With \<open>max_num_steps = 0\<close> the two fixed-point entry points return the
  input points and cells unchanged; \<open>nonlinear_optimization_uniform\<close>, whose minimizer
  then takes no step and returns its start vector, returns the input points unchanged
  and the cells that one pass of \<open>flip_until_delaunay\<close> makes of the input cells: the input
  cells when the input is Delaunay already. The input mesh and the flipped mesh are
  valid.
\<close>

theorem max_num_steps_zero:
  assumes "MeshTri X cells = Inr m0" and "valid_mesh m0"
    and "flip_contract flip" and "valid_mesh (flip m0)"
    and "select (is_interior_node m0) X = Inr xi"
    and "idle_at (flatten xi) (minimize (flatten xi) tol 0)"
  shows "result_of (nonlinear_optimization_uniform flip minimize X cells tol 0 verbose
           save_steps has_callback) = Inr (X, cells_nodes (flip m0)) \<and>
         fixed_point_uniform damp converged X cells tol 0 = Inr (X, cells) \<and>
         fixed_point_density_preserving damp converged X cells tol 0 = Inr (X, cells)"
proof (intro conjI)
  show "result_of (nonlinear_optimization_uniform flip minimize X cells tol 0 verbose
           save_steps has_callback) = Inr (X, cells_nodes (flip m0))"
    using assms by (rule nonlinear_idle)
  show "fixed_point_uniform damp converged X cells tol 0 = Inr (X, cells)"
    using assms(1) by (rule fixed_point_zero(1))
  show "fixed_point_density_preserving damp converged X cells tol 0 = Inr (X, cells)"
    using assms(1) by (rule fixed_point_zero(2))
qed

theorem max_num_steps_zero_witness:
  "MeshTri pentagon_points pentagon_cells = Inr pentagon_mesh \<and> valid_mesh pentagon_mesh \<and>
   flip_contract flip_reference \<and> valid_mesh (flip_reference pentagon_mesh) \<and>
   select (is_interior_node pentagon_mesh) pentagon_points = Inr [(0, 2)] \<and>
   idle_at (flatten [(0, 2)]) (steepest_descent (1/100) (flatten [(0, 2)]) 0 0) \<and>
   result_of (nonlinear_optimization_uniform flip_reference (steepest_descent (1/100))
     pentagon_points pentagon_cells 0 0 False False True)
     = Inr (pentagon_points, cells_nodes pentagon_flipped) \<and>
   fixed_point_uniform (\<lambda>m new. new) (\<lambda>tol a b. False) pentagon_points pentagon_cells 0 0
     = Inr (pentagon_points, pentagon_cells) \<and>
   fixed_point_density_preserving (\<lambda>m new. new) (\<lambda>tol a b. False) pentagon_points
     pentagon_cells 0 0 = Inr (pentagon_points, pentagon_cells)"
proof -
  have idle: "idle_at (flatten [(0, 2)]) (steepest_descent (1/100) (flatten [(0, 2)]) 0 0)"
    by (simp add: steepest_descent_def)
  have vf: "valid_mesh (flip_reference pentagon_mesh)"
    by (simp add: flip_reference_pentagon valid_pentagon_flipped)
  note th = max_num_steps_zero[where minimize = "steepest_descent (1/100)" and tol = 0
      and verbose = False and save_steps = False and has_callback = True
      and damp = "\<lambda>m new. new" and converged = "\<lambda>tol a b. False",
      OF MeshTri_pentagon valid_pentagon flip_reference_contract vf select_pentagon idle]
  show ?thesis
    using th MeshTri_pentagon valid_pentagon flip_reference_contract vf select_pentagon idle
    by (simp add: flip_reference_pentagon)
qed


section \<open>A run with one accepted step\<close>

lemma energy_default_pentagon: "energy_default pentagon_mesh = Inr (67/6)"
  by (simp add: energy_default_def eval_defs pentagon_mesh_def pentagon_points_def
      pentagon_cells_def)

lemma energy_default_moved_flipped: "energy_default pentagon_moved_flipped = Inr (61/6)"
  by (simp add: energy_default_def eval_defs pentagon_moved_flipped_def moved_points_def)

lemma write_interior_pentagon:
  "write_interior [0, 1] pentagon_mesh = Inr (pentagon_mesh\<lparr> node_coords := moved_points \<rparr>)"
  by (simp add: write_interior_def set_masked_def pentagon_mesh_def pentagon_points_def
      moved_points_def)

lemma update_values_moved:
  "update_values (pentagon_mesh\<lparr> node_coords := moved_points \<rparr>) = Inr pentagon_moved"
  by (simp add: update_values_def pentagon_mesh_def pentagon_moved_def moved_points_def
      pentagon_cells_def eval_defs circumcenter_def barycenter_def)

lemma refresh_pentagon:
  "the_mesh st = pentagon_mesh \<Longrightarrow>
   refresh [0, 1] st = Inr ((), st\<lparr> the_mesh := pentagon_moved \<rparr>)"
  by (simp add: refresh_def write_interior_pentagon update_values_moved)

lemma flip_once_moved:
  "flip_once moved_points pentagon_cells =
     Some [(4, 0, 1), (1, 5, 4), (1, 2, 5), (2, 3, 5), (3, 4, 5)]"
  by (simp add: flip_once_def flip_pair_def rotations_def cot_at_def vsub_def
      moved_points_def pentagon_cells_def upt_rec)

lemma flip_once_moved_flipped:
  "flip_once moved_points [(4, 0, 1), (1, 5, 4), (1, 2, 5), (2, 3, 5), (3, 4, 5)] = None"
  by (simp add: flip_once_def flip_pair_def rotations_def cot_at_def vsub_def
      moved_points_def upt_rec)

lemma edges_cells_1_flipped:
  "edges_cells_1 [(4, 0, 1), (1, 5, 4), (1, 2, 5), (2, 3, 5), (3, 4, 5)] = [0, 0, 2, 3, 4]"
  by (simp add: edges_cells_1_def num_adjacent_def cell_edges_def edge_def upt_rec)

lemma flip_reference_moved: "flip_reference pentagon_moved = pentagon_moved_flipped"
proof -
  have n: "length (cells_nodes pentagon_moved) * length (cells_nodes pentagon_moved) = Suc (Suc 23)"
    by (simp add: pentagon_moved_def pentagon_cells_def)
  have l: "flip_loop (node_coords pentagon_moved) (Suc (Suc 23)) (cells_nodes pentagon_moved) =
      [(4, 0, 1), (1, 5, 4), (1, 2, 5), (2, 3, 5), (3, 4, 5)]"
    unfolding pentagon_moved_def
    by (simp only: mesh.simps flip_loop.simps flip_once_moved flip_once_moved_flipped option.case)
  have u: "update_values (pentagon_moved\<lparr> cells_nodes := [(4, 0, 1), (1, 5, 4), (1, 2, 5), (2, 3, 5), (3, 4, 5)],
        boundary_cell_ids := [0, 0, 2, 3, 4] \<rparr>) = Inr pentagon_moved_flipped"
    by (simp add: update_values_def pentagon_moved_flipped_def pentagon_moved_def moved_points_def
      eval_defs circumcenter_def barycenter_def)
  show ?thesis
    unfolding flip_reference_def n l Let_def edges_cells_1_flipped u by simp
qed

lemma flip_reference_moved_flipped: "flip_reference pentagon_moved_flipped = pentagon_moved_flipped"
proof -
  have n: "length (cells_nodes pentagon_moved_flipped) * length (cells_nodes pentagon_moved_flipped)
      = Suc 24"
    by (simp add: pentagon_moved_flipped_def)
  have l: "flip_loop (node_coords pentagon_moved_flipped) (Suc 24) (cells_nodes pentagon_moved_flipped) =
      [(4, 0, 1), (1, 5, 4), (1, 2, 5), (2, 3, 5), (3, 4, 5)]"
    unfolding pentagon_moved_flipped_def
    by (simp only: mesh.simps flip_loop.simps flip_once_moved_flipped option.case)
  have u: "update_values (pentagon_moved_flipped\<lparr> cells_nodes := [(4, 0, 1), (1, 5, 4), (1, 2, 5), (2, 3, 5), (3, 4, 5)],
        boundary_cell_ids := [0, 0, 2, 3, 4] \<rparr>) = Inr pentagon_moved_flipped"
    by (simp add: update_values_def pentagon_moved_flipped_def moved_points_def
      eval_defs circumcenter_def barycenter_def)
  show ?thesis
    unfolding flip_reference_def n l Let_def edges_cells_1_flipped u by simp
qed

lemma refresh_moved_flipped:
  "the_mesh st = pentagon_moved_flipped \<Longrightarrow> refresh [0, 1] st = Inr ((), st)"
proof -
  assume st: "the_mesh st = pentagon_moved_flipped"
  have w: "write_interior [0, 1] pentagon_moved_flipped = Inr pentagon_moved_flipped"
    by (simp add: write_interior_def set_masked_def pentagon_moved_flipped_def moved_points_def)
  have u: "update_values pentagon_moved_flipped = Inr pentagon_moved_flipped"
    by (simp add: update_values_def pentagon_moved_flipped_def moved_points_def
      eval_defs circumcenter_def barycenter_def)
  show ?thesis using st by (simp add: refresh_def w u)
qed

lemma optimizing_one_step:
  "optimizing flip_reference (one_step [0, 1]) pentagon_points pentagon_cells 0 1 False False True
   = Inr (([0, 1], True, 1),
       \<lparr> the_mesh = pentagon_moved_flipped, step = 1,
         trace = [Stats_before (67/6), Called 0 pentagon_mesh, Called 1 pentagon_moved_flipped] \<rparr>)"
  by (simp add: optimizing_def MeshTri_pentagon energy_default_pentagon select_pentagon
      one_step_def flip_delaunay_def refresh_pentagon flip_reference_moved emit_def Let_def)

lemma one_step_run:
  "nonlinear_optimization_uniform flip_reference (one_step [0, 1]) pentagon_points
     pentagon_cells 0 1 False False True
   = Inr ((moved_points, [(4, 0, 1), (1, 5, 4), (1, 2, 5), (2, 3, 5), (3, 4, 5)]), one_step_final)"
  by (simp add: nonlinear_optimization_uniform_def optimizing_one_step refresh_moved_flipped
      flip_reference_moved_flipped energy_default_moved_flipped emit_def one_step_final_def Let_def)
     (simp add: pentagon_moved_flipped_def)

lemma runner_one_step:
  assumes g: "get_new_points pentagon_mesh = Inr ([p], m1)"
    and m1: "node_coords m1 = pentagon_points" "cells_nodes m1 = pentagon_cells"
      "is_interior_node m1 = [False, False, False, False, False, True]"
  shows "\<exists>m2. runner get_new_points (\<lambda>m new. new) (\<lambda>tol a b. False) pentagon_mesh 0 1 = Inr m2
      \<and> node_coords m2 = [(0, -1), (1/2, 1/2), (3, 3), (-3, 3), (-1/2, 1/2), p]
      \<and> cells_nodes m2 = pentagon_cells"
proof -
  let ?xnew = "[(0, -1), (1/2, 1/2), (3, 3), (-3, 3), (-1/2, 1/2), p]"
  have sm: "set_masked (is_interior_node m1) (node_coords m1) [p] = Inr ?xnew"
    by (simp add: set_masked_def m1 pentagon_points_def)
  have "list_all (cell_in_range (length (node_coords (m1\<lparr> node_coords := ?xnew \<rparr>))))
      (cells_nodes (m1\<lparr> node_coords := ?xnew \<rparr>))"
    by (simp add: m1 pentagon_cells_def cell_in_range_def)
  then obtain m2 where up: "update_values (m1\<lparr> node_coords := ?xnew \<rparr>) = Inr m2"
    using update_values_total by blast
  have "runner_steps get_new_points (\<lambda>m new. new) (\<lambda>tol a b. False) 0 (Suc 0) pentagon_mesh = Inr m2"
    using g sm up by simp
  then show ?thesis
    using update_values_frame[OF up] m1 by (auto simp: runner_def)
qed

lemma fixed_point_uniform_one_step:
  "fixed_point_uniform (\<lambda>m new. new) (\<lambda>tol a b. False) pentagon_points pentagon_cells 0 1
   = Inr ([(0, -1), (1/2, 1/2), (3, 3), (-3, 3), (-1/2, 1/2), (0, 215/114)], pentagon_cells)"
proof -
  have g: "fixed_point_uniform_get_new_points pentagon_mesh =
      Inr ([(0, 215/114)], pentagon_mesh\<lparr> cell_circumcenters := target_points pentagon_mesh \<rparr>)"
    using get_new_points_uniform_ok[OF well_formed_pentagon] by (simp add: averaged_pentagon)
  obtain m2 where "runner fixed_point_uniform_get_new_points (\<lambda>m new. new) (\<lambda>tol a b. False)
      pentagon_mesh 0 1 = Inr m2"
    "node_coords m2 = [(0, -1), (1/2, 1/2), (3, 3), (-3, 3), (-1/2, 1/2), (0, 215/114)]"
    "cells_nodes m2 = pentagon_cells"
    using runner_one_step[where get_new_points = fixed_point_uniform_get_new_points, OF g]
    by (auto simp: pentagon_mesh_def)
  then show ?thesis by (simp add: fixed_point_uniform_def MeshTri_pentagon)
qed

lemma fixed_point_density_one_step:
  "fixed_point_density_preserving (\<lambda>m new. new) (\<lambda>tol a b. False) pentagon_points
     pentagon_cells 0 1
   = Inr ([(0, -1), (1/2, 1/2), (3, 3), (-3, 3), (-1/2, 1/2), (0, 22/15)], pentagon_cells)"
proof -
  have g: "fixed_point_density_preserving_get_new_points pentagon_mesh =
      Inr ([(0, 22/15)], pentagon_mesh\<lparr> cell_circumcenters := target_points pentagon_mesh \<rparr>)"
    using get_new_points_density_ok[OF well_formed_pentagon] by (simp add: averaged_pentagon)
  obtain m2 where "runner fixed_point_density_preserving_get_new_points (\<lambda>m new. new)
      (\<lambda>tol a b. False) pentagon_mesh 0 1 = Inr m2"
    "node_coords m2 = [(0, -1), (1/2, 1/2), (3, 3), (-3, 3), (-1/2, 1/2), (0, 22/15)]"
    "cells_nodes m2 = pentagon_cells"
    using runner_one_step[where get_new_points = fixed_point_density_preserving_get_new_points,
        OF g]
    by (auto simp: pentagon_mesh_def)
  then show ?thesis by (simp add: fixed_point_density_preserving_def MeshTri_pentagon)
qed

theorem boundary_nodes_unchanged_witness:
  "flip_contract flip_reference \<and>
   result_of (nonlinear_optimization_uniform flip_reference (one_step [0, 1]) pentagon_points
     pentagon_cells 0 1 False False True)
     = Inr (moved_points, [(4, 0, 1), (1, 5, 4), (1, 2, 5), (2, 3, 5), (3, 4, 5)]) \<and>
   same_boundary pentagon_points pentagon_cells moved_points \<and>
   moved_points \<noteq> pentagon_points \<and>
   fixed_point_uniform (\<lambda>m new. new) (\<lambda>tol a b. False) pentagon_points pentagon_cells 0 1
     = Inr ([(0, -1), (1/2, 1/2), (3, 3), (-3, 3), (-1/2, 1/2), (0, 215/114)], pentagon_cells) \<and>
   same_boundary pentagon_points pentagon_cells
     [(0, -1), (1/2, 1/2), (3, 3), (-3, 3), (-1/2, 1/2), (0, 215/114)] \<and>
   fixed_point_density_preserving (\<lambda>m new. new) (\<lambda>tol a b. False) pentagon_points
     pentagon_cells 0 1
     = Inr ([(0, -1), (1/2, 1/2), (3, 3), (-3, 3), (-1/2, 1/2), (0, 22/15)], pentagon_cells) \<and>
   same_boundary pentagon_points pentagon_cells
     [(0, -1), (1/2, 1/2), (3, 3), (-3, 3), (-1/2, 1/2), (0, 22/15)]"
proof -
  note th = boundary_nodes_unchanged[OF flip_reference_contract,
      where minimize = "one_step [0, 1]" and X = pentagon_points and cells = pentagon_cells
      and tol = 0 and max_num_steps = 1 and verbose = False and save_steps = False
      and has_callback = True and damp = "\<lambda>m new. new" and converged = "\<lambda>tol a b. False"]
  have a: "same_boundary pentagon_points pentagon_cells moved_points"
    using th one_step_run by blast
  have b: "same_boundary pentagon_points pentagon_cells
     [(0, -1), (1/2, 1/2), (3, 3), (-3, 3), (-1/2, 1/2), (0, 215/114)]"
    using th fixed_point_uniform_one_step by blast
  have c: "same_boundary pentagon_points pentagon_cells
     [(0, -1), (1/2, 1/2), (3, 3), (-3, 3), (-1/2, 1/2), (0, 22/15)]"
    using th fixed_point_density_one_step by blast
  have d: "moved_points \<noteq> pentagon_points"
    by (simp add: moved_points_def pentagon_points_def)
  show ?thesis
    using a b c d flip_reference_contract one_step_run fixed_point_uniform_one_step
      fixed_point_density_one_step
    by (simp add: result_of_def)
qed


section \<open>The end of a run\<close>

lemma run_minimizer_with_success:
  "run_minimizer flip verbose save_steps has_callback (with_success b t) st =
     (case run_minimizer flip verbose save_steps has_callback t st of
        Inl err \<Rightarrow> Inl err
      | Inr ((x, s, n), st') \<Rightarrow> Inr ((x, b, n), st'))"
proof (induction t arbitrary: st)
  case (Done x s n)
  then show ?case by simp
next
  case (Eval_f x k)
  then show ?case by (auto split: sum.splits)
next
  case (Eval_jac x k)
  then show ?case by (auto split: sum.splits)
next
  case (Accept x t)
  then show ?case by (auto split: sum.splits)
qed

lemma optimizing_with_success:
  "optimizing flip (\<lambda>x0 tol n. with_success b (minimize x0 tol n)) X cells tol max_num_steps
     verbose save_steps has_callback =
   (case optimizing flip minimize X cells tol max_num_steps verbose save_steps has_callback of
      Inl err \<Rightarrow> Inl err
    | Inr ((x, s, n), st') \<Rightarrow> Inr ((x, b, n), st'))"
  by (simp add: optimizing_def Let_def run_minimizer_with_success split: sum.splits)

lemma nonlinear_with_success:
  "nonlinear_optimization_uniform flip (\<lambda>x0 tol n. with_success b (minimize x0 tol n)) X cells
     tol max_num_steps verbose save_steps has_callback =
   nonlinear_optimization_uniform flip minimize X cells tol max_num_steps verbose save_steps
     has_callback"
  by (simp add: nonlinear_optimization_uniform_def optimizing_with_success split: sum.splits)

lemma nonlinear_final:
  assumes o: "optimizing flip minimize X cells tol max_num_steps verbose save_steps has_callback
      = Inr ((out_x, out_success, out_nit), st4)"
    and fm: "final_mesh flip out_x (the_mesh st4) = Inr m6"
    and vm: "valid_mesh m6"
  shows "result_of (nonlinear_optimization_uniform flip minimize X cells tol max_num_steps
      verbose save_steps has_callback) = Inr (node_coords m6, cells_nodes m6)"
proof -
  obtain m1 m2 where w: "write_interior out_x (the_mesh st4) = Inr m1"
    and u: "update_values m1 = Inr m2" and m6: "m6 = flip m2"
    using fm by (auto simp: final_mesh_def split: sum.splits)
  have r: "refresh out_x st4 = Inr ((), st4\<lparr> the_mesh := m2 \<rparr>)"
    using w u by (simp add: refresh_def)
  obtain e1 where e1: "energy_default m6 = Inr e1"
    using energy_returns[OF vm] by (auto simp: energy_default_def)
  show ?thesis
    using o r e1 m6
    by (simp add: nonlinear_optimization_uniform_def Let_def result_of_def)
qed

lemma final_mesh_interior:
  assumes fm: "final_mesh flip x m = Inr m6" and fc: "flip_contract flip"
    and rs: "reshape2 x = Inr rows"
    and lr: "length rows = length (filter id (is_interior_node m))"
  shows "select (is_interior_node m6) (node_coords m6) = Inr rows"
    and "is_interior_node m6 = is_interior_node m"
proof -
  obtain m1 m2 where w: "write_interior x m = Inr m1"
    and u: "update_values m1 = Inr m2" and m6: "m6 = flip m2"
    using fm by (auto simp: final_mesh_def split: sum.splits)
  have lm: "length (is_interior_node m) = length (node_coords m)"
    using write_interior_frame(5)[OF w] .
  have m1: "node_coords m1 = assign_rows (is_interior_node m) (node_coords m) rows"
    "is_interior_node m1 = is_interior_node m"
    using w rs lr lm by (auto simp: write_interior_def set_masked_def Let_def split: if_splits)
  have c6: "node_coords m6 = node_coords m1" "is_interior_node m6 = is_interior_node m"
    using fc m6 update_values_frame[OF u] m1(2) by (simp_all add: flip_contract_def)
  show "is_interior_node m6 = is_interior_node m" by (rule c6(2))
  show "select (is_interior_node m6) (node_coords m6) = Inr rows"
    using select_assign_rows[OF lm lr] lm
    by (simp add: c6 m1 select_def assign_rows_length)
qed

text \<open>
  C8. \<open>nonlinear_optimization_uniform\<close> accepts the minimizer's termination whatever
  \<open>out.success\<close> says: the result is the same for the same minimizer reporting
  convergence or not. After the minimizer it writes the final iterate to the interior
  nodes, recomputes the geometry, flips the edges once more, and returns the points and
  cells of the mesh so reached; the final statistics, computed before the return, need
  that mesh to be valid.
\<close>

theorem final_flip_and_return:
  assumes "optimizing flip minimize X cells tol max_num_steps verbose save_steps has_callback
      = Inr ((out_x, out_success, out_nit), st4)"
    and "final_mesh flip out_x (the_mesh st4) = Inr m6"
    and "valid_mesh m6"
    and "flip_contract flip"
    and "reshape2 out_x = Inr rows"
    and "length rows = length (filter id (is_interior_node (the_mesh st4)))"
  shows "(\<forall>b. result_of (nonlinear_optimization_uniform flip
              (\<lambda>x0 tol n. with_success b (minimize x0 tol n)) X cells tol max_num_steps
              verbose save_steps has_callback) = Inr (node_coords m6, cells_nodes m6)) \<and>
         result_of (nonlinear_optimization_uniform flip minimize X cells tol max_num_steps
              verbose save_steps has_callback) = Inr (node_coords m6, cells_nodes m6) \<and>
         select (is_interior_node m6) (node_coords m6) = Inr rows"
proof (intro conjI allI)
  show r: "result_of (nonlinear_optimization_uniform flip minimize X cells tol max_num_steps
              verbose save_steps has_callback) = Inr (node_coords m6, cells_nodes m6)"
    using assms(1,2,3) by (rule nonlinear_final)
  fix b
  show "result_of (nonlinear_optimization_uniform flip
              (\<lambda>x0 tol n. with_success b (minimize x0 tol n)) X cells tol max_num_steps
              verbose save_steps has_callback) = Inr (node_coords m6, cells_nodes m6)"
    using r by (simp add: nonlinear_with_success)
next
  show "select (is_interior_node m6) (node_coords m6) = Inr rows"
    using assms(2,4,5,6) by (rule final_mesh_interior(1))
qed

lemma valid_moved_flipped: "valid_mesh pentagon_moved_flipped"
  by (simp add: valid_mesh_def pentagon_moved_flipped_def moved_points_def
      cell_in_range_def cell_distinct_def cell_points_def tri_area_def upt_rec)

lemma final_mesh_moved_flipped:
  "final_mesh flip_reference [0, 1] pentagon_moved_flipped = Inr pentagon_moved_flipped"
proof -
  have "refresh [0, 1] \<lparr> the_mesh = pentagon_moved_flipped, step = 0, trace = [] \<rparr>
      = Inr ((), \<lparr> the_mesh = pentagon_moved_flipped, step = 0, trace = [] \<rparr>)"
    by (rule refresh_moved_flipped) simp
  then show ?thesis
    by (auto simp: refresh_def final_mesh_def flip_reference_moved_flipped split: sum.splits)
qed

theorem final_flip_and_return_witness:
  "optimizing flip_reference (one_step [0, 1]) pentagon_points pentagon_cells 0 1 False False True
     = Inr (([0, 1], True, 1),
         \<lparr> the_mesh = pentagon_moved_flipped, step = 1,
           trace = [Stats_before (67/6), Called 0 pentagon_mesh, Called 1 pentagon_moved_flipped] \<rparr>) \<and>
   final_mesh flip_reference [0, 1] pentagon_moved_flipped = Inr pentagon_moved_flipped \<and>
   valid_mesh pentagon_moved_flipped \<and> flip_contract flip_reference \<and>
   reshape2 [0, 1] = Inr [(0, 1)] \<and>
   result_of (nonlinear_optimization_uniform flip_reference
       (\<lambda>x0 tol n. with_success False (one_step [0, 1] x0 tol n)) pentagon_points pentagon_cells
       0 1 False False True)
     = Inr (moved_points, [(4, 0, 1), (1, 5, 4), (1, 2, 5), (2, 3, 5), (3, 4, 5)]) \<and>
   result_of (nonlinear_optimization_uniform flip_reference (one_step [0, 1]) pentagon_points
       pentagon_cells 0 1 False False True)
     = Inr (moved_points, [(4, 0, 1), (1, 5, 4), (1, 2, 5), (2, 3, 5), (3, 4, 5)]) \<and>
   select (is_interior_node pentagon_moved_flipped) moved_points = Inr [(0, 1)]"
proof -
  let ?st4 = "\<lparr> the_mesh = pentagon_moved_flipped, step = 1,
           trace = [Stats_before (67/6), Called 0 pentagon_mesh, Called 1 pentagon_moved_flipped] \<rparr>"
  have fm: "final_mesh flip_reference [0, 1] (the_mesh ?st4) = Inr pentagon_moved_flipped"
    using final_mesh_moved_flipped by simp
  have rs: "reshape2 [0, 1] = Inr [(0, 1)]" by simp
  have lr: "length [(0::real, 1::real)] = length (filter id (is_interior_node (the_mesh ?st4)))"
    by (simp add: pentagon_moved_flipped_def)
  note th = final_flip_and_return[OF optimizing_one_step fm valid_moved_flipped
      flip_reference_contract rs lr]
  have nc: "node_coords pentagon_moved_flipped = moved_points"
    "cells_nodes pentagon_moved_flipped = [(4, 0, 1), (1, 5, 4), (1, 2, 5), (2, 3, 5), (3, 4, 5)]"
    by (simp_all add: pentagon_moved_flipped_def)
  show ?thesis
    using th optimizing_one_step final_mesh_moved_flipped valid_moved_flipped
      flip_reference_contract rs
    unfolding nc by blast
qed


section \<open>The trace of a run\<close>

lemma calls_append: "calls (a @ b) = calls a @ calls b"
  by (induction a rule: calls.induct) simp_all

lemma refresh_state:
  "trace (state_of (refresh x st)) = trace st" "step (state_of (refresh x st)) = step st"
  by (auto simp: refresh_def state_of_def split: sum.splits)

lemma f_state:
  "trace (state_of (f x st)) = trace st" "step (state_of (f x st)) = step st"
  using refresh_state[of x st]
  by (auto simp: f_def state_of_def split: sum.splits)

lemma jac_state:
  "trace (state_of (jac x st)) = trace st" "step (state_of (jac x st)) = step st"
  using refresh_state[of x st]
  by (auto simp: jac_def state_of_def split: sum.splits)

lemma state_of_simps [simp]:
  "state_of (Inl (e, st)) = st" "state_of (Inr (a, st)) = st"
  by (simp_all add: state_of_def)

lemma flip_delaunay_grows:
  "\<exists>evs. trace (state_of (flip_delaunay flip verbose save_steps has_callback x st)) = trace st @ evs"
proof (cases "refresh x (st\<lparr> step := step st + 1 \<rparr>)")
  case (Inl err)
  then show ?thesis
    using refresh_state(1)[of x "st\<lparr> step := step st + 1 \<rparr>"]
    by (cases err) (simp add: flip_delaunay_def)
next
  case (Inr r)
  obtain u st1 where r: "r = (u, st1)" by (cases r) auto
  have t1: "trace st1 = trace st"
    using refresh_state(1)[of x "st\<lparr> step := step st + 1 \<rparr>"] Inr r by simp
  let ?st2 = "st1\<lparr> the_mesh := flip (the_mesh st1) \<rparr>"
  let ?st3 = "if save_steps then emit (Saved (step ?st2)) ?st2 else ?st2"
  have "\<exists>evs3. trace ?st3 = trace st @ evs3"
    using t1 by (cases save_steps) (simp_all add: emit_def)
  then obtain evs3 where t3: "trace ?st3 = trace st @ evs3" by blast
  show ?thesis
  proof (cases verbose)
    case False
    then show ?thesis
      using Inr r t3 by (auto simp: flip_delaunay_def Let_def emit_def)
  next
    case True
    show ?thesis
    proof (cases "f x ?st3")
      case (Inl err)
      then show ?thesis
        using True \<open>refresh x (st\<lparr> step := step st + 1 \<rparr>) = Inr r\<close> r t3 f_state(1)[of x ?st3]
        by (cases err) (auto simp: flip_delaunay_def Let_def)
    next
      case (Inr q)
      obtain v st4 where q: "q = (v, st4)" by (cases q) auto
      have "trace st4 = trace st @ evs3"
        using f_state(1)[of x ?st3] Inr q t3 by simp
      then show ?thesis
        using True \<open>refresh x (st\<lparr> step := step st + 1 \<rparr>) = Inr r\<close> r Inr q
        by (auto simp: flip_delaunay_def Let_def emit_def)
    qed
  qed
qed

lemma flip_delaunay_calls:
  assumes "flip_delaunay flip verbose save_steps True x st = Inr (u, st')"
  shows "step st' = Suc (step st)"
    and "calls (trace st') = calls (trace st) @ [(Suc (step st), the_mesh st')]"
proof -
  obtain st1 where r: "refresh x (st\<lparr> step := step st + 1 \<rparr>) = Inr ((), st1)"
    using assms by (auto simp: flip_delaunay_def split: sum.splits)
  have s1: "trace st1 = trace st" "step st1 = Suc (step st)"
    using refresh_state[of x "st\<lparr> step := step st + 1 \<rparr>"] r by simp_all
  let ?st2 = "st1\<lparr> the_mesh := flip (the_mesh st1) \<rparr>"
  let ?st3 = "if save_steps then emit (Saved (step ?st2)) ?st2 else ?st2"
  have s3: "calls (trace ?st3) = calls (trace st)" "step ?st3 = Suc (step st)"
    using s1 by (auto simp: emit_def calls_append)
  have "step st' = Suc (step st) \<and>
      calls (trace st') = calls (trace st) @ [(Suc (step st), the_mesh st')]"
  proof (cases verbose)
    case False
    then have "st' = emit (Called (step ?st3) (the_mesh ?st3)) ?st3"
      using assms r by (simp add: flip_delaunay_def Let_def)
    then show ?thesis using s3 by (auto simp: emit_def calls_append)
  next
    case True
    then obtain v st4 where f4: "f x ?st3 = Inr (v, st4)"
      and st': "st' = emit (Called (step (emit (Stats_step (step st4) v) st4))
                      (the_mesh (emit (Stats_step (step st4) v) st4)))
                 (emit (Stats_step (step st4) v) st4)"
      using assms r by (auto simp: flip_delaunay_def Let_def split: sum.splits)
    have "trace st4 = trace ?st3" "step st4 = step ?st3"
      using f_state[of x ?st3] f4 by simp_all
    then show ?thesis using st' s3 by (auto simp: emit_def calls_append)
  qed
  then show "step st' = Suc (step st)"
    and "calls (trace st') = calls (trace st) @ [(Suc (step st), the_mesh st')]"
    by simp_all
qed

lemma run_minimizer_grows:
  "\<exists>evs. trace (state_of (run_minimizer flip verbose save_steps has_callback t st)) = trace st @ evs"
proof (induction t arbitrary: st)
  case (Done x s n)
  then show ?case by simp
next
  case (Eval_f x k)
  show ?case
  proof (cases "f x st")
    case (Inl err)
    then show ?thesis using f_state(1)[of x st] by (cases err) simp
  next
    case (Inr q)
    obtain v st1 where q: "q = (v, st1)" by (cases q) auto
    have "trace st1 = trace st" using f_state(1)[of x st] Inr q by simp
    then show ?thesis using Eval_f.IH[of "k v" st1] Inr q by simp
  qed
next
  case (Eval_jac x k)
  show ?case
  proof (cases "jac x st")
    case (Inl err)
    then show ?thesis using jac_state(1)[of x st] by (cases err) simp
  next
    case (Inr q)
    obtain g st1 where q: "q = (g, st1)" by (cases q) auto
    have "trace st1 = trace st" using jac_state(1)[of x st] Inr q by simp
    then show ?thesis using Eval_jac.IH[of "k g" st1] Inr q by simp
  qed
next
  case (Accept x t)
  obtain evs where e: "trace (state_of (flip_delaunay flip verbose save_steps has_callback x st))
      = trace st @ evs"
    using flip_delaunay_grows by blast
  show ?case
  proof (cases "flip_delaunay flip verbose save_steps has_callback x st")
    case (Inl err)
    then show ?thesis using e by (cases err) simp
  next
    case (Inr q)
    obtain u st1 where q: "q = (u, st1)" by (cases q) auto
    obtain evs' where "trace (state_of (run_minimizer flip verbose save_steps has_callback t st1))
        = trace st1 @ evs'"
      using Accept.IH[of st1] by blast
    then show ?thesis using e Inr q by simp
  qed
qed

lemma run_minimizer_calls:
  "run_minimizer flip verbose save_steps True t st = Inr (out, st') \<Longrightarrow>
   map fst (calls (trace st)) = [0..<Suc (step st)] \<Longrightarrow>
   map fst (calls (trace st')) = [0..<Suc (step st')]"
proof (induction t arbitrary: st)
  case (Done x s n)
  then show ?case by simp
next
  case (Eval_f x k)
  then obtain v st1 where f1: "f x st = Inr (v, st1)"
    and r: "run_minimizer flip verbose save_steps True (k v) st1 = Inr (out, st')"
    by (auto split: sum.splits)
  have "trace st1 = trace st" "step st1 = step st" using f_state[of x st] f1 by simp_all
  then show ?case using Eval_f.IH[OF _ r] Eval_f.prems(2) by simp
next
  case (Eval_jac x k)
  then obtain g st1 where j1: "jac x st = Inr (g, st1)"
    and r: "run_minimizer flip verbose save_steps True (k g) st1 = Inr (out, st')"
    by (auto split: sum.splits)
  have "trace st1 = trace st" "step st1 = step st" using jac_state[of x st] j1 by simp_all
  then show ?case using Eval_jac.IH[OF _ r] Eval_jac.prems(2) by simp
next
  case (Accept x t)
  then obtain u st1 where d1: "flip_delaunay flip verbose save_steps True x st = Inr (u, st1)"
    and r: "run_minimizer flip verbose save_steps True t st1 = Inr (out, st')"
    by (auto split: sum.splits)
  have "map fst (calls (trace st1)) = [0..<Suc (step st1)]"
    using flip_delaunay_calls[OF d1] Accept.prems(2) by simp
  then show ?case using Accept.IH[OF r] by simp
qed

lemma MeshTri_select:
  assumes "MeshTri X cells = Inr m0"
  shows "\<exists>xi. select (is_interior_node m0) X = Inr xi"
  using MeshTri_fields(3)[OF assms] by (simp add: select_def interior_nodes_def)

lemma optimizing_run:
  assumes m0: "MeshTri X cells = Inr m0" and e0: "energy_default m0 = Inr e0"
  shows "\<exists>xi. optimizing flip minimize X cells tol max_num_steps verbose save_steps has_callback
      = run_minimizer flip verbose save_steps has_callback (minimize (flatten xi) tol max_num_steps)
          \<lparr> the_mesh = m0, step = 0,
            trace = (if save_steps then [Saved 0] else []) @ [Stats_before e0]
                    @ (if has_callback then [Called 0 m0] else []) \<rparr>"
proof -
  obtain xi where xi: "select (is_interior_node m0) X = Inr xi"
    using MeshTri_select[OF m0] by blast
  have "optimizing flip minimize X cells tol max_num_steps verbose save_steps has_callback
      = run_minimizer flip verbose save_steps has_callback (minimize (flatten xi) tol max_num_steps)
          \<lparr> the_mesh = m0, step = 0,
            trace = (if save_steps then [Saved 0] else []) @ [Stats_before e0]
                    @ (if has_callback then [Called 0 m0] else []) \<rparr>"
    using m0 e0 xi by (simp add: optimizing_def Let_def emit_def)
  then show ?thesis by blast
qed

lemma optimizing_trace:
  assumes m0: "MeshTri X cells = Inr m0" and e0: "energy_default m0 = Inr e0"
  shows "\<exists>evs. trace (state_of (optimizing flip minimize X cells tol max_num_steps verbose
        save_steps has_callback))
      = (if save_steps then [Saved 0] else []) @ [Stats_before e0]
        @ (if has_callback then [Called 0 m0] else []) @ evs"
proof -
  obtain xi where o: "optimizing flip minimize X cells tol max_num_steps verbose save_steps
      has_callback
      = run_minimizer flip verbose save_steps has_callback (minimize (flatten xi) tol max_num_steps)
          \<lparr> the_mesh = m0, step = 0,
            trace = (if save_steps then [Saved 0] else []) @ [Stats_before e0]
                    @ (if has_callback then [Called 0 m0] else []) \<rparr>"
    using optimizing_run[OF m0 e0] by blast
  show ?thesis
    unfolding o
    using run_minimizer_grows[of flip verbose save_steps has_callback
        "minimize (flatten xi) tol max_num_steps"
        "\<lparr> the_mesh = m0, step = 0,
            trace = (if save_steps then [Saved 0] else []) @ [Stats_before e0]
                    @ (if has_callback then [Called 0 m0] else []) \<rparr>"]
    by auto
qed

lemma nonlinear_trace:
  "\<exists>evs. trace (state_of (nonlinear_optimization_uniform flip minimize X cells tol max_num_steps
        verbose save_steps has_callback))
      = trace (state_of (optimizing flip minimize X cells tol max_num_steps verbose save_steps
          has_callback)) @ evs \<and> calls evs = []"
proof (cases "optimizing flip minimize X cells tol max_num_steps verbose save_steps has_callback")
  case (Inl err)
  then show ?thesis by (cases err) (simp add: nonlinear_optimization_uniform_def)
next
  case (Inr q)
  obtain out_x out_success out_nit st4 where q: "q = ((out_x, out_success, out_nit), st4)"
    by (cases q) auto
  show ?thesis
  proof (cases "refresh out_x st4")
    case (Inl err)
    then show ?thesis
      using \<open>optimizing flip minimize X cells tol max_num_steps verbose save_steps has_callback
        = Inr q\<close> q refresh_state(1)[of out_x st4]
      by (cases err) (simp add: nonlinear_optimization_uniform_def)
  next
    case (Inr p)
    obtain u st5 where p: "p = (u, st5)" by (cases p) auto
    have t5: "trace st5 = trace st4" using refresh_state(1)[of out_x st4] Inr p by simp
    show ?thesis
      using \<open>optimizing flip minimize X cells tol max_num_steps verbose save_steps has_callback
        = Inr q\<close> q Inr p t5
      by (cases "energy_default (flip (the_mesh st5))")
         (simp_all add: nonlinear_optimization_uniform_def Let_def emit_def)
  qed
qed

lemma nonlinear_calls:
  assumes m0: "MeshTri X cells = Inr m0"
    and n: "nonlinear_optimization_uniform flip minimize X cells tol max_num_steps verbose
      save_steps True = Inr (r, st)"
  shows "map fst (calls (trace st)) = [0..<Suc (step st)]"
proof -
  obtain out_x out_success out_nit st4 st5 e1 where
    o: "optimizing flip minimize X cells tol max_num_steps verbose save_steps True
      = Inr ((out_x, out_success, out_nit), st4)"
    and r: "refresh out_x st4 = Inr ((), st5)"
    and st: "st = emit (Stats_final out_nit e1) (st5\<lparr> the_mesh := flip (the_mesh st5) \<rparr>)"
    using n by (auto simp: nonlinear_optimization_uniform_def Let_def split: sum.splits)
  obtain e0 where e0: "energy_default m0 = Inr e0"
    using o m0 by (auto simp: optimizing_def Let_def split: sum.splits)
  obtain xi where run: "run_minimizer flip verbose save_steps True (minimize (flatten xi) tol max_num_steps)
          \<lparr> the_mesh = m0, step = 0,
            trace = (if save_steps then [Saved 0] else []) @ [Stats_before e0]
                    @ (if True then [Called 0 m0] else []) \<rparr>
      = Inr ((out_x, out_success, out_nit), st4)"
    using optimizing_run[OF m0 e0, of flip minimize tol max_num_steps verbose save_steps True] o
    by auto
  have "map fst (calls (trace st4)) = [0..<Suc (step st4)]"
    by (rule run_minimizer_calls[OF run]) (simp add: calls_append)
  moreover have "trace st5 = trace st4" "step st5 = step st4"
    using refresh_state[of out_x st4] r by simp_all
  ultimately show ?thesis by (simp add: st emit_def calls_append)
qed

text \<open>
  C10. With a callback given, \<open>nonlinear_optimization_uniform\<close> calls it with step 0 and
  the initial mesh before the minimizer starts, so the call is made however the run
  goes on from there; every accepted step then calls it once more, with the running step
  count: the counter goes up by one and one call carrying it is added. In a run that
  returns the steps of the calls are 0, 1, up to the final count, hence at least one call
  when no step is accepted. The first statistics are computed before the first call and
  must not fail.
\<close>

theorem callback_from_step_zero:
  assumes "MeshTri X cells = Inr m0" and "energy_default m0 = Inr e0"
  shows "(\<exists>rest. calls (trace (state_of (nonlinear_optimization_uniform flip minimize X cells
             tol max_num_steps verbose save_steps True))) = (0, m0) # rest) \<and>
         (\<forall>r st. nonlinear_optimization_uniform flip minimize X cells tol max_num_steps verbose
             save_steps True = Inr (r, st) \<longrightarrow>
             map fst (calls (trace st)) = [0..<Suc (step st)]) \<and>
         (\<forall>x st u st'. flip_delaunay flip verbose save_steps True x st = Inr (u, st') \<longrightarrow>
             step st' = Suc (step st) \<and>
             calls (trace st') = calls (trace st) @ [(Suc (step st), the_mesh st')])"
proof (intro conjI allI impI)
  obtain evs where o: "trace (state_of (optimizing flip minimize X cells tol max_num_steps verbose
        save_steps True))
      = (if save_steps then [Saved 0] else []) @ [Stats_before e0]
        @ (if True then [Called 0 m0] else []) @ evs"
    using optimizing_trace[OF assms] by blast
  obtain evs' where "trace (state_of (nonlinear_optimization_uniform flip minimize X cells tol
        max_num_steps verbose save_steps True))
      = trace (state_of (optimizing flip minimize X cells tol max_num_steps verbose save_steps
          True)) @ evs'"
    using nonlinear_trace by blast
  then show "\<exists>rest. calls (trace (state_of (nonlinear_optimization_uniform flip minimize X cells
             tol max_num_steps verbose save_steps True))) = (0, m0) # rest"
    using o by (simp add: calls_append)
next
  fix r st
  assume "nonlinear_optimization_uniform flip minimize X cells tol max_num_steps verbose
             save_steps True = Inr (r, st)"
  then show "map fst (calls (trace st)) = [0..<Suc (step st)]"
    using assms(1) nonlinear_calls by blast
next
  fix x st u st'
  assume "flip_delaunay flip verbose save_steps True x st = Inr (u, st')"
  then show "step st' = Suc (step st)"
    and "calls (trace st') = calls (trace st) @ [(Suc (step st), the_mesh st')]"
    by (rule flip_delaunay_calls)+
qed

lemma flip_delaunay_pentagon:
  "flip_delaunay flip_reference False False True [0, 1]
     \<lparr> the_mesh = pentagon_mesh, step = 0, trace = [] \<rparr>
   = Inr ((), \<lparr> the_mesh = pentagon_moved_flipped, step = 1,
                trace = [Called 1 pentagon_moved_flipped] \<rparr>)"
  by (simp add: flip_delaunay_def refresh_pentagon flip_reference_moved emit_def Let_def)

theorem callback_from_step_zero_witness:
  "MeshTri pentagon_points pentagon_cells = Inr pentagon_mesh \<and>
   energy_default pentagon_mesh = Inr (67/6) \<and>
   (\<exists>rest. calls (trace (state_of (nonlinear_optimization_uniform flip_reference
       (steepest_descent (1/100)) pentagon_points pentagon_cells 0 0 False False True)))
     = (0, pentagon_mesh) # rest) \<and>
   nonlinear_optimization_uniform flip_reference (one_step [0, 1]) pentagon_points
     pentagon_cells 0 1 False False True
     = Inr ((moved_points, [(4, 0, 1), (1, 5, 4), (1, 2, 5), (2, 3, 5), (3, 4, 5)]), one_step_final) \<and>
   calls (trace one_step_final) = [(0, pentagon_mesh), (1, pentagon_moved_flipped)] \<and>
   map fst (calls (trace one_step_final)) = [0..<Suc (step one_step_final)] \<and>
   flip_delaunay flip_reference False False True [0, 1]
     \<lparr> the_mesh = pentagon_mesh, step = 0, trace = [] \<rparr>
     = Inr ((), \<lparr> the_mesh = pentagon_moved_flipped, step = 1,
                  trace = [Called 1 pentagon_moved_flipped] \<rparr>) \<and>
   calls [Called 1 pentagon_moved_flipped] = calls [] @ [(Suc 0, pentagon_moved_flipped)]"
proof -
  note a = callback_from_step_zero[OF MeshTri_pentagon energy_default_pentagon,
      of flip_reference "steepest_descent (1/100)" 0 0 False False]
  note b = callback_from_step_zero[OF MeshTri_pentagon energy_default_pentagon,
      of flip_reference "one_step [0, 1]" 0 1 False False]
  have c: "map fst (calls (trace one_step_final)) = [0..<Suc (step one_step_final)]"
    using b one_step_run by blast
  have d: "calls [Called 1 pentagon_moved_flipped] = calls [] @ [(Suc 0, pentagon_moved_flipped)]"
    using b flip_delaunay_pentagon by force
  have e: "calls (trace one_step_final) = [(0, pentagon_mesh), (1, pentagon_moved_flipped)]"
    by (simp add: one_step_final_def)
  show ?thesis
    using a c d e MeshTri_pentagon energy_default_pentagon one_step_run flip_delaunay_pentagon
    by blast
qed

lemma f_energy:
  "f x s = Inr (v, s') \<Longrightarrow> energy (the_mesh s') True = Inr v"
  by (auto simp: f_def split: sum.splits)

lemma nonlinear_statistics:
  assumes m0: "MeshTri X cells = Inr m0"
    and n: "nonlinear_optimization_uniform flip minimize X cells tol max_num_steps verbose
      save_steps has_callback = Inr ((pts, cs), st)"
  shows "\<exists>e0 e1 nit evs.
      trace st = (if save_steps then [Saved 0] else []) @ [Stats_before e0] @ evs
                 @ [Stats_final nit e1] \<and>
      energy m0 False = Inr e0 \<and> energy (the_mesh st) False = Inr e1 \<and>
      node_coords (the_mesh st) = pts \<and> cells_nodes (the_mesh st) = cs"
proof -
  obtain out_x out_success out_nit st4 st5 e1 where
    o: "optimizing flip minimize X cells tol max_num_steps verbose save_steps has_callback
      = Inr ((out_x, out_success, out_nit), st4)"
    and r: "refresh out_x st4 = Inr ((), st5)"
    and e1: "energy_default (flip (the_mesh st5)) = Inr e1"
    and res: "pts = node_coords (flip (the_mesh st5))" "cs = cells_nodes (flip (the_mesh st5))"
    and st: "st = emit (Stats_final out_nit e1) (st5\<lparr> the_mesh := flip (the_mesh st5) \<rparr>)"
    using n by (auto simp: nonlinear_optimization_uniform_def Let_def split: sum.splits)
  obtain e0 where e0: "energy_default m0 = Inr e0"
    using o m0 by (auto simp: optimizing_def Let_def split: sum.splits)
  obtain evs where t4: "trace st4 = (if save_steps then [Saved 0] else []) @ [Stats_before e0]
        @ (if has_callback then [Called 0 m0] else []) @ evs"
    using optimizing_trace[OF m0 e0, of flip minimize tol max_num_steps verbose save_steps
        has_callback] o by auto
  have t5: "trace st5 = trace st4" using refresh_state(1)[of out_x st4] r by simp
  have "trace st = (if save_steps then [Saved 0] else []) @ [Stats_before e0]
      @ ((if has_callback then [Called 0 m0] else []) @ evs) @ [Stats_final out_nit e1]"
    using t4 t5 by (simp add: st emit_def)
  moreover have "energy m0 False = Inr e0" using e0 by (simp add: energy_default_def)
  moreover have "energy (the_mesh st) False = Inr e1"
    using e1 by (simp add: st energy_default_def)
  moreover have "node_coords (the_mesh st) = pts" "cells_nodes (the_mesh st) = cs"
    using res by (simp_all add: st)
  ultimately show ?thesis by blast
qed

text \<open>
  C9. The parameter \<open>uniform_density\<close> of \<open>energy\<close> defaults to \<open>False\<close>. The statistics
  that \<open>nonlinear_optimization_uniform\<close> prints before and after the optimization call
  \<open>energy(mesh)\<close>: the first and the last entry of a returning run report the energy
  of the initial and of the returned mesh with the density that is not uniform. The
  objective \<open>f\<close> of the minimizer returns the energy with uniform density.
\<close>

theorem statistics_report_default_energy:
  assumes "MeshTri X cells = Inr m0"
    and "nonlinear_optimization_uniform flip minimize X cells tol max_num_steps verbose
      save_steps has_callback = Inr ((pts, cs), st)"
  shows "(\<exists>e0 e1 nit evs.
            trace st = (if save_steps then [Saved 0] else []) @ [Stats_before e0] @ evs
                       @ [Stats_final nit e1] \<and>
            energy m0 False = Inr e0 \<and> energy (the_mesh st) False = Inr e1 \<and>
            node_coords (the_mesh st) = pts \<and> cells_nodes (the_mesh st) = cs) \<and>
         (\<forall>x s v s'. f x s = Inr (v, s') \<longrightarrow> energy (the_mesh s') True = Inr v) \<and>
         (\<forall>m. energy_default m = energy m False)"
proof (intro conjI allI impI)
  show "\<exists>e0 e1 nit evs.
            trace st = (if save_steps then [Saved 0] else []) @ [Stats_before e0] @ evs
                       @ [Stats_final nit e1] \<and>
            energy m0 False = Inr e0 \<and> energy (the_mesh st) False = Inr e1 \<and>
            node_coords (the_mesh st) = pts \<and> cells_nodes (the_mesh st) = cs"
    using assms by (rule nonlinear_statistics)
next
  fix x s v s'
  assume "f x s = Inr (v, s')"
  then show "energy (the_mesh s') True = Inr v" by (rule f_energy)
next
  fix m
  show "energy_default m = energy m False" by (simp add: energy_default_def)
qed

lemma f_pentagon:
  "f [0, 2] \<lparr> the_mesh = pentagon_mesh, step = 0, trace = [] \<rparr>
     = Inr (157/6, \<lparr> the_mesh = pentagon_mesh, step = 0, trace = [] \<rparr>)"
proof -
  have sel: "select (is_interior_node pentagon_mesh) (node_coords pentagon_mesh) = Inr [(0, 2)]"
    using select_pentagon by (simp add: pentagon_mesh_def)
  have r: "refresh (flatten [(0, 2)]) \<lparr> the_mesh = pentagon_mesh, step = 0, trace = [] \<rparr>
      = Inr ((), \<lparr> the_mesh = pentagon_mesh, step = 0, trace = [] \<rparr>)"
    by (rule refresh_same[OF well_formed_pentagon sel]) simp
  have e: "energy pentagon_mesh True = Inr (157/6)"
    by (simp add: eval_defs pentagon_mesh_def pentagon_points_def pentagon_cells_def)
  show ?thesis using r e by (simp add: f_def flatten_def)
qed

theorem statistics_report_default_energy_witness:
  "MeshTri pentagon_points pentagon_cells = Inr pentagon_mesh \<and>
   nonlinear_optimization_uniform flip_reference (one_step [0, 1]) pentagon_points
     pentagon_cells 0 1 False False True
     = Inr ((moved_points, [(4, 0, 1), (1, 5, 4), (1, 2, 5), (2, 3, 5), (3, 4, 5)]), one_step_final) \<and>
   trace one_step_final = [Stats_before (67/6), Called 0 pentagon_mesh,
     Called 1 pentagon_moved_flipped, Stats_final 1 (61/6)] \<and>
   energy pentagon_mesh False = Inr (67/6) \<and>
   energy (the_mesh one_step_final) False = Inr (61/6) \<and>
   f [0, 2] \<lparr> the_mesh = pentagon_mesh, step = 0, trace = [] \<rparr>
     = Inr (157/6, \<lparr> the_mesh = pentagon_mesh, step = 0, trace = [] \<rparr>) \<and>
   energy pentagon_mesh True = Inr (157/6)"
proof -
  note th = statistics_report_default_energy[OF MeshTri_pentagon one_step_run]
  have t: "trace one_step_final = [Stats_before (67/6), Called 0 pentagon_mesh,
     Called 1 pentagon_moved_flipped, Stats_final 1 (61/6)]"
    by (simp add: one_step_final_def)
  obtain e0 e1 nit evs where
    tr: "trace one_step_final = [Stats_before e0] @ evs @ [Stats_final nit e1]"
    and e0: "energy pentagon_mesh False = Inr e0"
    and e1: "energy (the_mesh one_step_final) False = Inr e1"
    using th by auto
  have "hd (trace one_step_final) = Stats_before e0" using tr by simp
  then have a: "e0 = 67/6" using t by simp
  have "last (trace one_step_final) = Stats_final nit e1" using tr by simp
  then have b: "e1 = 61/6" using t by simp
  have "\<forall>x s v s'. f x s = Inr (v, s') \<longrightarrow> energy (the_mesh s') True = Inr v"
    using th by blast
  from this[rule_format, OF f_pentagon]
  have c: "energy pentagon_mesh True = Inr (157/6)" by simp
  show ?thesis
    using MeshTri_pentagon one_step_run t e0 e1 a b c f_pentagon by simp
qed

lemma gradient_spec_pentagon: "gradient_spec pentagon_mesh = [0, -23/3]"
proof -
  have three: "{..<3::nat} = {0, 1, 2}" by auto
  have five: "{..<5::nat} = {0, 1, 2, 3, 4}" by auto
  have ids: "interior_ids pentagon_mesh = [5]"
    by (simp add: interior_ids_def pentagon_mesh_def upt_rec)
  have g: "node_gradient_spec pentagon_mesh 5 = (0, -23/3)"
    by (simp add: node_gradient_spec_def cell_pull_def pentagon_mesh_def pentagon_cells_def
        pentagon_points_def slot_def smul_def vsub_def three five)
  show ?thesis by (simp add: gradient_spec_def ids g flatten_def)
qed

theorem jac_is_gradient_spec_witness:
  "jac [0, 2] \<lparr> the_mesh = pentagon_mesh, step = 0, trace = [] \<rparr>
     = Inr ([0, -23/3], \<lparr> the_mesh = pentagon_mesh, step = 0, trace = [] \<rparr>)"
proof -
  have sel: "select (is_interior_node pentagon_mesh) (node_coords pentagon_mesh) = Inr [(0, 2)]"
    using select_pentagon by (simp add: pentagon_mesh_def)
  have r: "refresh (flatten [(0, 2)]) \<lparr> the_mesh = pentagon_mesh, step = 0, trace = [] \<rparr>
      = Inr ((), \<lparr> the_mesh = pentagon_mesh, step = 0, trace = [] \<rparr>)"
    by (rule refresh_same[OF well_formed_pentagon sel]) simp
  show ?thesis
    using jac_is_gradient_spec[of "[0, 2]" "\<lparr> the_mesh = pentagon_mesh, step = 0, trace = [] \<rparr>"] r
    by (simp add: flatten_def gradient_spec_pentagon)
qed

end
